theory Spec2Isabelle
  imports Main "HOL-Library.AList" "HOL-Library.Multiset"
begin

unbundle bit_operations_syntax

section \<open>Strings and dictionaries\<close>

text \<open>
  A Python \<open>str\<close> is a sequence of Unicode code points, so a string is a list of
  code points. ASCII literals are written \<open>py ''...''\<close>; the five connective symbols
  are named. A one-character string (a variable name, an element of a string under
  iteration) is its code point. A \<open>dict\<close> keeps its keys in insertion order and an
  assignment to an existing key keeps the key's position: an association list under
  \<open>AList.update\<close>.
\<close>

type_synonym pychar = nat
type_synonym pystr = "pychar list"

definition py :: "string \<Rightarrow> pystr" where
  "py s = map of_char s"

definition c_not :: pychar where "c_not = 172"
definition c_and :: pychar where "c_and = 8743"
definition c_or :: pychar where "c_or = 8744"
definition c_imp :: pychar where "c_imp = 8594"
definition c_iff :: pychar where "c_iff = 8596"

section \<open>The shared functions\<close>

definition var_chars :: "pychar set" where
  "var_chars = {of_char CHR ''p'', of_char CHR ''q'', of_char CHR ''r'', of_char CHR ''s''}"

definition extract_variables :: "pystr \<Rightarrow> pychar list" where
  "extract_variables formula =
     sorted_list_of_set
       (fold (\<lambda>char variables. if char \<in> var_chars then insert char variables else variables)
          formula {})"

definition generate_truth_combinations :: "pychar list \<Rightarrow> (pychar \<times> pystr) list list" where
  "generate_truth_combinations variables =
     (let n = length variables in
      map (\<lambda>i. fold (\<lambda>j combo.
                 let bit = drop_bit (n - 1 - j) i AND (1::nat)
                 in AList.update (variables ! j) (if bit \<noteq> 0 then py ''T'' else py ''F'') combo)
               [0..<n] [])
          [0..<2 ^ n])"

section \<open>The host's regular expressions\<close>

text \<open>
  \<open>evaluate_formula\<close> calls \<open>re.sub\<close> with the pattern \<open>\b\<close> + one escaped character
  + \<open>\b\<close>. A word character is an alphanumeric character or the underscore. The ASCII
  range is classified here in full, and the five connective symbols are mathematical
  symbols, so no word characters. The host's table for the other code points above 127
  is not part of the program: \<open>classified\<close> delimits the strings the model covers.
\<close>

definition is_word :: "pychar \<Rightarrow> bool" where
  "is_word c = (48 \<le> c \<and> c \<le> 57 \<or> 65 \<le> c \<and> c \<le> 90 \<or> c = 95 \<or> 97 \<le> c \<and> c \<le> 122)"

definition classified :: "pychar \<Rightarrow> bool" where
  "classified c = (c < 128 \<or> c \<in> {c_not, c_and, c_or, c_imp, c_iff})"

text \<open>
  \<open>re_sub_from prev var repl text\<close> scans \<open>text\<close> from the left; \<open>prev\<close> says whether
  the character before the current position is a word character (\<open>False\<close> at the start
  of the string). A match is one character equal to \<open>var\<close> with a word boundary on both
  sides; boundaries are read in the original text, and the search goes on behind the match.
\<close>

fun re_sub_from :: "bool \<Rightarrow> pychar \<Rightarrow> pystr \<Rightarrow> pystr \<Rightarrow> pystr" where
  "re_sub_from prev var repl [] = []"
| "re_sub_from prev var repl (c # cs) =
     (if c = var \<and> prev \<noteq> is_word c
           \<and> is_word c \<noteq> (case cs of [] \<Rightarrow> False | d # _ \<Rightarrow> is_word d)
      then repl @ re_sub_from (is_word c) var repl cs
      else c # re_sub_from (is_word c) var repl cs)"

definition re_sub :: "pychar \<Rightarrow> pystr \<Rightarrow> pystr \<Rightarrow> pystr" where
  "re_sub var repl text = re_sub_from False var repl text"

text \<open>\<open>str.replace\<close> with a pattern of one character.\<close>

definition str_replace :: "pychar \<Rightarrow> pystr \<Rightarrow> pystr \<Rightarrow> pystr" where
  "str_replace old new text = concat (map (\<lambda>c. if c = old then new else [c]) text)"

section \<open>The host's expression evaluator\<close>

text \<open>
  \<open>eval\<close> is modelled on the expressions written with the tokens \<open>True\<close>, \<open>False\<close>,
  \<open>not\<close>, \<open>and\<close>, \<open>or\<close>, \<open><=\<close>, \<open>==\<close>, the parentheses, the space, and the names
  that the substitutions of \<open>evaluate_formula\<close> can leave in a formula over the program's
  alphabet. The tokenizer answers \<open>None\<close> for a text with anything else (another name, a
  number, another operator): such a text is outside the model, and its value is neither
  promised nor denied.
\<close>

datatype token = TTrue | TFalse | TNot | TAnd | TOr | TLe | TEq | TLp | TRp | TName

definition keyword :: "pystr \<Rightarrow> token option" where
  "keyword w =
     (if w = py ''True'' then Some TTrue
      else if w = py ''False'' then Some TFalse
      else if w = py ''not'' then Some TNot
      else if w = py ''and'' then Some TAnd
      else if w = py ''or'' then Some TOr
      else None)"

text \<open>
  A variable that is not a key of the assignment, or that stands next to another letter,
  is left in the text as it is, and \<open>not\<close>, the replacement of \<open>\<not>\<close>, joins the word
  before it. So the words left over are the letters \<open>p\<close>, \<open>q\<close>, \<open>r\<close>, \<open>s\<close> in a row,
  or these or a constant followed by \<open>not\<close>. Each is a name, and no such name is defined
  where \<open>eval\<close> runs: the program binds none (the local names of \<open>evaluate_formula\<close> are
  \<open>formula\<close>, \<open>truth_values\<close>, \<open>temp\<close>, \<open>var\<close> and \<open>val\<close>), and none is a builtin.
\<close>

definition undefined_name :: "pystr \<Rightarrow> bool" where
  "undefined_name w =
     (let u = (if 3 < length w \<and> drop (length w - 3) w = py ''not''
               then take (length w - 3) w else w)
      in u = py ''True'' \<or> u = py ''False'' \<or> (u \<noteq> [] \<and> list_all (\<lambda>c. c \<in> var_chars) u))"

definition emit :: "token \<Rightarrow> token list option \<Rightarrow> token list option" where
  "emit t r = map_option (Cons t) r"

definition flush :: "pystr \<Rightarrow> token list option \<Rightarrow> token list option" where
  "flush w r =
     (if w = [] then r
      else case keyword w of
             Some k \<Rightarrow> emit k r
           | None \<Rightarrow> if undefined_name w then emit TName r else None)"

text \<open>
  \<open>lex w text\<close>: \<open>w\<close> is the word read so far (a name or keyword is a longest run of
  word characters); 32 is the space, 40 and 41 the parentheses, 60 \<open><\<close> and 61 \<open>=\<close>.
\<close>

fun lex :: "pystr \<Rightarrow> pystr \<Rightarrow> token list option" where
  "lex w [] = flush w (Some [])"
| "lex w (c # cs) =
     (if is_word c then lex (w @ [c]) cs
      else flush w
        (if c = 32 then lex [] cs
         else if c = 40 then emit TLp (lex [] cs)
         else if c = 41 then emit TRp (lex [] cs)
         else if c = 60 then
           (case cs of [] \<Rightarrow> None | d # ds \<Rightarrow> if d = 61 then emit TLe (lex [] ds) else None)
         else if c = 61 then
           (case cs of [] \<Rightarrow> None | d # ds \<Rightarrow> if d = 61 then emit TEq (lex [] ds) else None)
         else None))"

definition py_tokens :: "pystr \<Rightarrow> token list option" where
  "py_tokens text = lex [] text"

text \<open>
  Values: the Booleans and the empty tuple \<open>()\<close>, the only values these tokens can build.
  A run is a value or an exception raised on the way: a \<open>TypeError\<close> (a call of a Boolean
  or a tuple, an ordering between a Boolean and a tuple) or a \<open>NameError\<close> (a name).
  \<open>evaluate_formula\<close> answers every exception alike, so which one was raised is not kept.
\<close>

datatype pyval = PBool bool | PEmptyTuple

datatype run = Value pyval | Raised

fun truthy :: "pyval \<Rightarrow> bool" where
  "truthy (PBool b) = b"
| "truthy PEmptyTuple = False"

fun py_not :: "run \<Rightarrow> run" where
  "py_not (Value v) = Value (PBool (\<not> truthy v))"
| "py_not Raised = Raised"

text \<open>\<open>and\<close> and \<open>or\<close> evaluate the right operand only when the left one does not decide.\<close>

fun py_and :: "run \<Rightarrow> run \<Rightarrow> run" where
  "py_and (Value v) r = (if truthy v then r else Value v)"
| "py_and Raised r = Raised"

fun py_or :: "run \<Rightarrow> run \<Rightarrow> run" where
  "py_or (Value v) r = (if truthy v then Value v else r)"
| "py_or Raised r = Raised"

datatype cmp_op = OpLe | OpEq

fun compare :: "cmp_op \<Rightarrow> pyval \<Rightarrow> pyval \<Rightarrow> bool option" where
  "compare OpLe (PBool x) (PBool y) = Some (x \<longrightarrow> y)"
| "compare OpLe PEmptyTuple PEmptyTuple = Some True"
| "compare OpLe (PBool x) PEmptyTuple = None"
| "compare OpLe PEmptyTuple (PBool y) = None"
| "compare OpEq (PBool x) (PBool y) = Some (x = y)"
| "compare OpEq PEmptyTuple PEmptyTuple = Some True"
| "compare OpEq (PBool x) PEmptyTuple = Some False"
| "compare OpEq PEmptyTuple (PBool y) = Some False"

text \<open>
  A comparison chain \<open>a op b op c\<close> is \<open>a op b and b op c\<close> with \<open>b\<close> evaluated once.
  The state of a chain is its result so far and, while no comparison has failed or
  raised, the value of the operand on the left of the next operator.
\<close>

fun chain_start :: "run \<Rightarrow> run \<times> pyval option" where
  "chain_start (Value v) = (Value v, Some v)"
| "chain_start Raised = (Raised, None)"

fun chain_step :: "run \<times> pyval option \<Rightarrow> cmp_op \<Rightarrow> run \<Rightarrow> run \<times> pyval option" where
  "chain_step (res, None) op c = (res, None)"
| "chain_step (res, Some v) op Raised = (Raised, None)"
| "chain_step (res, Some v) op (Value w) =
     (case compare op v w of
        None \<Rightarrow> (Raised, None)
      | Some True \<Rightarrow> (Value (PBool True), Some w)
      | Some False \<Rightarrow> (Value (PBool False), None))"

text \<open>
  The grammar, one function per rule. A parser returns the run of what it read and the
  tokens behind it, or \<open>None\<close> for a \<open>SyntaxError\<close>:
  \<^verbatim>\<open>
  disjunction: conjunction ('or' conjunction)*
  conjunction: inversion ('and' inversion)*
  inversion:   'not' inversion | comparison
  comparison:  primary (('<=' | '==') primary)*
  primary:     atom ('(' [disjunction] ')')*
  atom:        'True' | 'False' | NAME | '(' ')' | '(' disjunction ')'
  \<close>
  The parameter \<open>D\<close> is the parser for what stands between parentheses. A repetition
  takes a bound on its number of rounds and is started with the number of tokens left,
  which is never used up (\<open>p_disj_more_fuel\<close> and its siblings below). Running the
  operand of a decided \<open>and\<close>, \<open>or\<close> or comparison has no effect but a possible
  exception, which \<open>py_and\<close>, \<open>py_or\<close> and \<open>chain_step\<close> then drop. A call always
  raises: no value here is callable.
\<close>

type_synonym parser = "token list \<Rightarrow> (run \<times> token list) option"

definition closing :: "(run \<times> token list) option \<Rightarrow> (run \<times> token list) option" where
  "closing res =
     (case res of
        None \<Rightarrow> None
      | Some (a, r) \<Rightarrow> (case r of [] \<Rightarrow> None | t # r' \<Rightarrow> if t = TRp then Some (a, r') else None))"

definition p_atom :: "parser \<Rightarrow> parser" where
  "p_atom D ts =
     (case ts of
        [] \<Rightarrow> None
      | t # r \<Rightarrow>
          if t = TTrue then Some (Value (PBool True), r)
          else if t = TFalse then Some (Value (PBool False), r)
          else if t = TName then Some (Raised, r)
          else if t = TLp then
            (if r \<noteq> [] \<and> hd r = TRp then Some (Value PEmptyTuple, tl r) else closing (D r))
          else None)"

primrec p_calls :: "parser \<Rightarrow> nat \<Rightarrow> run \<Rightarrow> parser" where
  "p_calls D 0 f ts = (if ts \<noteq> [] \<and> hd ts = TLp then None else Some (f, ts))"
| "p_calls D (Suc n) f ts =
     (if ts \<noteq> [] \<and> hd ts = TLp then
        (if tl ts \<noteq> [] \<and> hd (tl ts) = TRp then p_calls D n Raised (tl (tl ts))
         else case closing (D (tl ts)) of
                None \<Rightarrow> None
              | Some (arg, r) \<Rightarrow> p_calls D n Raised r)
      else Some (f, ts))"

definition p_primary :: "parser \<Rightarrow> parser" where
  "p_primary D ts =
     (case p_atom D ts of None \<Rightarrow> None | Some (a, r) \<Rightarrow> p_calls D (length r) a r)"

fun cmp_of :: "token \<Rightarrow> cmp_op option" where
  "cmp_of TLe = Some OpLe"
| "cmp_of TEq = Some OpEq"
| "cmp_of _ = None"

definition next_cmp :: "token list \<Rightarrow> cmp_op option" where
  "next_cmp ts = (case ts of [] \<Rightarrow> None | t # _ \<Rightarrow> cmp_of t)"

primrec p_cmp_more :: "parser \<Rightarrow> nat \<Rightarrow> run \<times> pyval option \<Rightarrow> parser" where
  "p_cmp_more D 0 st ts = (if next_cmp ts = None then Some (fst st, ts) else None)"
| "p_cmp_more D (Suc n) st ts =
     (case next_cmp ts of
        None \<Rightarrow> Some (fst st, ts)
      | Some op \<Rightarrow>
          (case p_primary D (tl ts) of
             None \<Rightarrow> None
           | Some (b, r) \<Rightarrow> p_cmp_more D n (chain_step st op b) r))"

definition p_cmp :: "parser \<Rightarrow> parser" where
  "p_cmp D ts =
     (case p_primary D ts of
        None \<Rightarrow> None
      | Some (a, r) \<Rightarrow> p_cmp_more D (length r) (chain_start a) r)"

fun p_inv :: "parser \<Rightarrow> parser" where
  "p_inv D [] = p_cmp D []"
| "p_inv D (t # ts) =
     (if t = TNot then (case p_inv D ts of None \<Rightarrow> None | Some (a, r) \<Rightarrow> Some (py_not a, r))
      else p_cmp D (t # ts))"

primrec p_conj_more :: "parser \<Rightarrow> nat \<Rightarrow> run \<Rightarrow> parser" where
  "p_conj_more D 0 a ts = (if ts \<noteq> [] \<and> hd ts = TAnd then None else Some (a, ts))"
| "p_conj_more D (Suc n) a ts =
     (if ts \<noteq> [] \<and> hd ts = TAnd then
        (case p_inv D (tl ts) of
           None \<Rightarrow> None
         | Some (b, r) \<Rightarrow> p_conj_more D n (py_and a b) r)
      else Some (a, ts))"

definition p_conj :: "parser \<Rightarrow> parser" where
  "p_conj D ts =
     (case p_inv D ts of None \<Rightarrow> None | Some (a, r) \<Rightarrow> p_conj_more D (length r) a r)"

primrec p_disj_more :: "parser \<Rightarrow> nat \<Rightarrow> run \<Rightarrow> parser" where
  "p_disj_more D 0 a ts = (if ts \<noteq> [] \<and> hd ts = TOr then None else Some (a, ts))"
| "p_disj_more D (Suc n) a ts =
     (if ts \<noteq> [] \<and> hd ts = TOr then
        (case p_conj D (tl ts) of
           None \<Rightarrow> None
         | Some (b, r) \<Rightarrow> p_disj_more D n (py_or a b) r)
      else Some (a, ts))"

definition p_disj :: "parser \<Rightarrow> parser" where
  "p_disj D ts =
     (case p_conj D ts of None \<Rightarrow> None | Some (a, r) \<Rightarrow> p_disj_more D (length r) a r)"

text \<open>
  \<open>p_expr n\<close> reads an expression whose parentheses nest less than \<open>n\<close> deep; an input
  of \<open>k\<close> tokens nests less than \<open>k + 1\<close> deep (\<open>p_expr_depth\<close> below).
\<close>

primrec p_expr :: "nat \<Rightarrow> parser" where
  "p_expr 0 = (\<lambda>ts. None)"
| "p_expr (Suc n) = p_disj (p_expr n)"

text \<open>
  The exception \<open>eval\<close> ends with: \<open>SyntaxError\<close> when the text is not accepted as an
  expression, \<open>RunError\<close> when the expression raises while it runs.
\<close>

datatype py_exn = SyntaxError | RunError

definition py_parse :: "token list \<Rightarrow> py_exn + pyval" where
  "py_parse ts =
     (case p_expr (Suc (length ts)) ts of
        None \<Rightarrow> Inl SyntaxError
      | Some (a, r) \<Rightarrow>
          if r \<noteq> [] then Inl SyntaxError
          else (case a of Value v \<Rightarrow> Inr v | Raised \<Rightarrow> Inl RunError))"

text \<open>
  The limits of the interpreter. Its tokenizer refuses a text with more than 200
  parentheses open at once (\<open>too many nested parentheses\<close>); where its parser gives up
  before that, the exception is a \<open>MemoryError\<close>, which is caught just the same.
  \<open>deepest lv ts\<close> is the greatest number of parentheses open at once in \<open>ts\<close>, read
  with \<open>lv\<close> of them open. Below that bound the parser and the compiler give up on an
  expression nested too deep for them (parentheses, \<open>not\<close> under \<open>not\<close>, a call of a
  call), at a depth that depends on the build and on what is nested. \<open>marks ts\<close>, the
  number of opening parentheses and of \<open>not\<close> in \<open>ts\<close>, bounds that depth. An
  expression with at most 100 of them is within the reach of the parser and the
  compiler; one with more, unless the tokenizer refuses it, is outside the model.
\<close>

fun deepest :: "nat \<Rightarrow> token list \<Rightarrow> nat" where
  "deepest lv [] = lv"
| "deepest lv (t # ts) =
     (if t = TLp then deepest (Suc lv) ts
      else if t = TRp then max lv (deepest (lv - 1) ts)
      else deepest lv ts)"

definition marks :: "token list \<Rightarrow> nat" where
  "marks ts = length (filter (\<lambda>t. t = TLp \<or> t = TNot) ts)"

definition py_eval :: "pystr \<Rightarrow> (py_exn + pyval) option" where
  "py_eval text =
     (case py_tokens text of
        None \<Rightarrow> None
      | Some ts \<Rightarrow>
          if 200 < deepest 0 ts then Some (Inl SyntaxError)
          else if 100 < marks ts then None
          else Some (py_parse ts))"

section \<open>Evaluating a formula\<close>

text \<open>
  Every exception of \<open>eval\<close> becomes a \<open>ValueError\<close>. Its message, which quotes the
  exception, is not kept.
\<close>

datatype error = ValueError

definition evaluate_formula :: "pystr \<Rightarrow> (pychar \<times> pystr) list \<Rightarrow> (error + pystr) option" where
  "evaluate_formula formula truth_values =
     (if \<not> list_all classified formula then None
      else
        let temp = fold (\<lambda>(var, val). re_sub var (if val = py ''T'' then py ''True'' else py ''False''))
                     truth_values formula;
            temp = str_replace c_not (py ''not '') temp;
            temp = str_replace c_and (py '' and '') temp;
            temp = str_replace c_or (py '' or '') temp;
            temp = str_replace c_imp (py '' <= '') temp;
            temp = str_replace c_iff (py '' == '') temp
        in case py_eval temp of
             None \<Rightarrow> None
           | Some (Inl e) \<Rightarrow> Some (Inl ValueError)
           | Some (Inr result) \<Rightarrow> Some (Inr (if truthy result then py ''T'' else py ''F'')))"

section \<open>Experiment 1: the truth table\<close>

text \<open>
  The list comprehension over the combinations stops at the first \<open>ValueError\<close>.
\<close>

fun evaluate_all :: "pystr \<Rightarrow> (pychar \<times> pystr) list list \<Rightarrow> (error + pystr list) option" where
  "evaluate_all formula [] = Some (Inr [])"
| "evaluate_all formula (combo # combos) =
     (case evaluate_formula formula combo of
        None \<Rightarrow> None
      | Some (Inl e) \<Rightarrow> Some (Inl e)
      | Some (Inr res) \<Rightarrow>
          (case evaluate_all formula combos of
             None \<Rightarrow> None
           | Some (Inl e) \<Rightarrow> Some (Inl e)
           | Some (Inr results) \<Rightarrow> Some (Inr (res # results))))"

text \<open>
  A row of the table is a dictionary keyed by strings: the copy of a combination (its
  keys are the one-character variable names) with further columns assigned.
\<close>

type_synonym row = "(pystr \<times> pystr) list"

definition copy_row :: "(pychar \<times> pystr) list \<Rightarrow> row" where
  "copy_row combo = map (\<lambda>(k, v). ([k], v)) combo"

datatype formula_type = Tautology | Contradiction | Satisfiable

text \<open>
  What the page shows: nothing for an empty input, the message for a formula without
  variables, the message of a \<open>ValueError\<close>, or the classification and the table.
\<close>

datatype table_view =
    NoOutput
  | NoVariablesError
  | FormatError error
  | TruthTable formula_type "row list"

definition truth_table_generator :: "pystr \<Rightarrow> table_view option" where
  "truth_table_generator formula =
     (if formula = [] then Some NoOutput
      else
        let variables = extract_variables formula in
        if variables = [] then Some NoVariablesError
        else
          let combinations = generate_truth_combinations variables in
          case evaluate_all formula combinations of
            None \<Rightarrow> None
          | Some (Inl e) \<Rightarrow> Some (FormatError e)
          | Some (Inr results) \<Rightarrow>
              let table_data = map (\<lambda>(combo, res). AList.update formula res (copy_row combo))
                                 (zip combinations results);
                  formula_type =
                    (if list_all (\<lambda>res. res = py ''T'') results then Tautology
                     else if list_all (\<lambda>res. res = py ''F'') results then Contradiction
                     else Satisfiable)
              in Some (TruthTable formula_type table_data))"

section \<open>Experiment 2: equivalence of two formulas\<close>

definition consistent_key :: pystr where
  "consistent_key = [26159, 21542, 19968, 33268]"

definition check_mark :: pystr where "check_mark = [9989]"
definition cross_mark :: pystr where "cross_mark = [10060]"

text \<open>
  The report: the verdict, the number of differing assignments shown with a negative
  verdict, the comparison table, and one line per difference with the row number
  \<open>idx + 1\<close>, the assignment and the two results.
\<close>

record equivalence_report =
  is_equivalent :: bool
  difference_count :: nat
  comparison_table :: "row list"
  difference_lines :: "(nat \<times> (pychar \<times> pystr) list \<times> pystr \<times> pystr) list"

datatype equivalence_view =
    NoReport
  | ReportError error
  | Report equivalence_report

definition formula_equivalence :: "pystr \<Rightarrow> pystr \<Rightarrow> equivalence_view option" where
  "formula_equivalence formula1 formula2 =
     (if formula1 = [] \<or> formula2 = [] then Some NoReport
      else
        let vars1 = set (extract_variables formula1);
            vars2 = set (extract_variables formula2);
            all_vars = sorted_list_of_set (vars1 \<union> vars2);
            combinations = generate_truth_combinations all_vars
        in
        case evaluate_all formula1 combinations of
          None \<Rightarrow> None
        | Some (Inl e) \<Rightarrow> Some (ReportError e)
        | Some (Inr results1) \<Rightarrow>
            (case evaluate_all formula2 combinations of
               None \<Rightarrow> None
             | Some (Inl e) \<Rightarrow> Some (ReportError e)
             | Some (Inr results2) \<Rightarrow>
                 let enumerated = zip [0..<length combinations]
                                    (zip combinations (zip results1 results2));
                     table_data =
                       map (\<lambda>(idx, combo, res1, res2).
                              AList.update consistent_key
                                (if res1 = res2 then check_mark else cross_mark)
                                (AList.update formula2 res2
                                   (AList.update formula1 res1 (copy_row combo))))
                           enumerated;
                     differences = filter (\<lambda>(idx, combo, res1, res2). res1 \<noteq> res2) enumerated
                 in Some (Report
                      \<lparr> is_equivalent = (length differences = 0),
                        difference_count = length differences,
                        comparison_table = table_data,
                        difference_lines =
                          map (\<lambda>(idx, combo, res1, res2). (idx + 1, combo, res1, res2))
                              differences \<rparr>)))"

section \<open>Formulas as the specification reads them\<close>

text \<open>
  The syntax tree of a formula, with its parentheses and its spaces kept (\<open>Spaced i f j\<close>
  is \<open>f\<close> with \<open>i\<close> spaces before it and \<open>j\<close> after it), and the text it stands for.
  The text is written with a spelling of the connectives (the program's symbols, or the
  host's own words, which are what the symbols are replaced by) and with a text for each
  variable (its letter, or the constant substituted for it).
\<close>

datatype var = VarP | VarQ | VarR | VarS

fun var_char :: "var \<Rightarrow> pychar" where
  "var_char VarP = 112"
| "var_char VarQ = 113"
| "var_char VarR = 114"
| "var_char VarS = 115"

















definition shown :: "bool \<Rightarrow> pystr" where
  "shown b = (if b then py ''T'' else py ''F'')"








text \<open>A blank input: empty, or ASCII white space only.\<close>

definition blank :: "pystr \<Rightarrow> bool" where
  "blank s = list_all (\<lambda>c. c \<in> {9, 10, 11, 12, 13, 32}) s"

section \<open>Auxiliary notions for the proofs\<close>

text \<open>
  The substitution of \<open>re_sub_from\<close> inside a larger text: \<open>nxt\<close> says whether the
  character behind the part at hand is a word character.
\<close>

definition first_word :: "pystr \<Rightarrow> bool \<Rightarrow> bool" where
  "first_word xs nxt = (case xs of [] \<Rightarrow> nxt | c # _ \<Rightarrow> is_word c)"

definition last_word :: "bool \<Rightarrow> pystr \<Rightarrow> bool" where
  "last_word prev xs = (if xs = [] then prev else is_word (last xs))"

fun sub_in :: "bool \<Rightarrow> bool \<Rightarrow> pychar \<Rightarrow> pystr \<Rightarrow> pystr \<Rightarrow> pystr" where
  "sub_in prev nxt var repl [] = []"
| "sub_in prev nxt var repl (c # cs) =
     (if c = var \<and> prev \<noteq> is_word c \<and> is_word c \<noteq> first_word cs nxt
      then repl @ sub_in (is_word c) nxt var repl cs
      else c # sub_in (is_word c) nxt var repl cs)"

definition constant_text :: "pystr \<Rightarrow> pystr" where
  "constant_text val = (if val = py ''T'' then py ''True'' else py ''False'')"

definition substituted :: "(pychar \<times> pystr) list \<Rightarrow> pystr \<Rightarrow> pystr" where
  "substituted truth_values formula =
     fold (\<lambda>(var, val). re_sub var (if val = py ''T'' then py ''True'' else py ''False''))
       truth_values formula"

















text \<open>
  The assignments the equivalence check runs over, and the result inside a successful
  evaluation.
\<close>

definition union_combinations :: "pystr \<Rightarrow> pystr \<Rightarrow> (pychar \<times> pystr) list list" where
  "union_combinations formula1 formula2 =
     generate_truth_combinations
       (sorted_list_of_set (set (extract_variables formula1) \<union> set (extract_variables formula2)))"

fun result_of :: "(error + pystr) option \<Rightarrow> pystr" where
  "result_of (Some (Inr res)) = res"
| "result_of _ = []"

text \<open>
  Two more properties of a parser: \<open>shrinks D\<close>, what \<open>D\<close> leaves is no longer than its
  input; \<open>agree k D D'\<close>, the two parsers give the same answer on every input shorter
  than \<open>k\<close>.
\<close>

definition shrinks :: "parser \<Rightarrow> bool" where
  "shrinks D = (\<forall>ts a r. D ts = Some (a, r) \<longrightarrow> length r \<le> length ts)"

definition agree :: "nat \<Rightarrow> parser \<Rightarrow> parser \<Rightarrow> bool" where
  "agree k D D' = (\<forall>ts. length ts < k \<longrightarrow> D ts = D' ts)"

section \<open>Evaluation on concrete inputs\<close>

lemmas eval_defs = evaluate_formula_def py_def re_sub_def is_word_def classified_def
  c_not_def c_and_def c_or_def c_imp_def c_iff_def str_replace_def py_eval_def py_tokens_def
  keyword_def flush_def emit_def py_parse_def p_disj_def p_conj_def p_cmp_def p_primary_def
  p_atom_def closing_def next_cmp_def marks_def

section \<open>The variables of a formula\<close>

lemma fold_insert_vars:
  "fold (\<lambda>char variables. if char \<in> V then insert char variables else variables) xs A
     = A \<union> (set xs \<inter> V)"
  by (induction xs arbitrary: A) auto

lemma extract_variables_set: "set (extract_variables f) = set f \<inter> var_chars"
  by (simp add: extract_variables_def fold_insert_vars)

lemma extract_variables_distinct: "distinct (extract_variables f)"
  by (simp add: extract_variables_def)

lemma extract_variables_sorted: "sorted (extract_variables f)"
  by (simp add: extract_variables_def)

lemma extract_variables_filter:
  "extract_variables f = filter (\<lambda>v. v \<in> set f) (py ''pqrs'')"
proof -
  have "sorted (filter (\<lambda>v. v \<in> set f) (py ''pqrs''))" by (simp add: py_def)
  moreover have "distinct (filter (\<lambda>v. v \<in> set f) (py ''pqrs''))" by (simp add: py_def)
  moreover have "set (filter (\<lambda>v. v \<in> set f) (py ''pqrs'')) = set f \<inter> var_chars"
    by (auto simp: py_def var_chars_def)
  ultimately show ?thesis
    unfolding extract_variables_def fold_insert_vars
    by (metis Un_empty_left sorted_list_of_set.idem_if_sorted_distinct)
qed

text \<open>
  C9: \<open>extract_variables\<close> returns exactly the characters of \<open>p, q, r, s\<close> that occur in
  the string, without duplicates and in the order \<open>p < q < r < s\<close>: it is the list
  \<open>pqrs\<close> restricted to the characters of the string. It is a function of the string,
  so two calls return the same list.
\<close>

theorem extract_variables_canonical:
  "set (extract_variables formula) = set formula \<inter> var_chars
   \<and> distinct (extract_variables formula)
   \<and> sorted (extract_variables formula)
   \<and> extract_variables formula = filter (\<lambda>v. v \<in> set formula) (py ''pqrs'')"
  using extract_variables_set extract_variables_distinct extract_variables_sorted
    extract_variables_filter by blast

section \<open>The truth combinations\<close>

lemma update_fresh: "k \<notin> fst ` set al \<Longrightarrow> AList.update k v al = al @ [(k, v)]"
  by (induction al) auto

lemma fold_update_upt:
  "distinct vs \<Longrightarrow> k \<le> length vs \<Longrightarrow>
   fold (\<lambda>j combo. AList.update (vs ! j) (g j) combo) [0..<k] [] = map (\<lambda>j. (vs ! j, g j)) [0..<k]"
proof (induction k)
  case 0
  then show ?case by simp
next
  case (Suc k)
  have "vs ! k \<notin> fst ` set (map (\<lambda>j. (vs ! j, g j)) [0..<k])"
    using Suc.prems by (auto simp: nth_eq_iff_index_eq)
  with Suc show ?case by (simp add: update_fresh)
qed

lemma bit_test: "(drop_bit k i AND (1::nat)) \<noteq> 0 \<longleftrightarrow> odd (i div 2 ^ k)"
  by (simp add: and_one_eq drop_bit_eq_div odd_iff_mod_2_eq_one)

lemma generate_truth_combinations_eq:
  assumes "distinct vs"
  shows "generate_truth_combinations vs =
    map (\<lambda>i. map (\<lambda>j. (vs ! j, if odd (i div 2 ^ (length vs - 1 - j)) then py ''T'' else py ''F''))
               [0..<length vs])
        [0..<2 ^ length vs]"
  unfolding generate_truth_combinations_def Let_def bit_test
  by (simp add: fold_update_upt [OF assms order_refl])

lemma length_generate_truth_combinations:
  "length (generate_truth_combinations vs) = 2 ^ length vs"
  by (simp add: generate_truth_combinations_def Let_def)

lemma upt_2: "[0..<2] = [0, 1::nat]"
  by code_simp

lemma upt_4: "[0..<4] = [0, 1, 2, 3::nat]"
  by code_simp

lemma upt_8: "[0..<8] = [0, 1, 2, 3, 4, 5, 6, 7::nat]"
  by code_simp

lemma combinations_p:
  "generate_truth_combinations [112] = [[(112, py ''F'')], [(112, py ''T'')]]"
  by (simp add: generate_truth_combinations_eq upt_2)

lemma combinations_pq:
  "generate_truth_combinations [112, 113] =
     [[(112, py ''F''), (113, py ''F'')], [(112, py ''F''), (113, py ''T'')],
      [(112, py ''T''), (113, py ''F'')], [(112, py ''T''), (113, py ''T'')]]"
  by (simp add: generate_truth_combinations_eq upt_2 upt_4)

section \<open>The truth table\<close>

lemma evaluate_all_length:
  "evaluate_all f cs = Some (Inr rs) \<Longrightarrow> length rs = length cs"
  by (induction cs arbitrary: rs) (auto split: option.splits sum.splits)

lemma evaluate_all_nth:
  "evaluate_all f cs = Some (Inr rs) \<Longrightarrow> i < length cs \<Longrightarrow>
   evaluate_formula f (cs ! i) = Some (Inr (rs ! i))"
proof (induction cs arbitrary: rs i)
  case Nil
  then show ?case by simp
next
  case (Cons c cs)
  then show ?case
    by (cases i) (auto split: option.splits sum.splits)
qed

lemma evaluate_all_map:
  "\<forall>c \<in> set cs. evaluate_formula f c = Some (Inr (g c)) \<Longrightarrow>
   evaluate_all f cs = Some (Inr (map g cs))"
  by (induction cs) auto

lemma py_T_neq_F: "py ''T'' \<noteq> py ''F''"
  by (simp add: py_def)

lemma map_of_update_same: "map_of (AList.update k v al) k = Some v"
  by (simp add: AList.update_conv')

lemma truth_table_generator_table:
  assumes "truth_table_generator formula = Some (TruthTable ft rows)"
  shows "\<exists>results.
     evaluate_all formula (generate_truth_combinations (extract_variables formula))
       = Some (Inr results)
   \<and> rows = map (\<lambda>(combo, res). AList.update formula res (copy_row combo))
              (zip (generate_truth_combinations (extract_variables formula)) results)
   \<and> ft = (if list_all (\<lambda>res. res = py ''T'') results then Tautology
           else if list_all (\<lambda>res. res = py ''F'') results then Contradiction
           else Satisfiable)"
  using assms
  by (auto simp: truth_table_generator_def Let_def split: if_splits option.splits sum.splits)

lemma excluded_middle_table:
  "truth_table_generator [112, c_or, c_not, 112] =
     Some (TruthTable Tautology [[([112], py ''F''), ([112, c_or, c_not, 112], py ''T'')],
                                 [([112], py ''T''), ([112, c_or, c_not, 112], py ''T'')]])"
proof -
  have v: "extract_variables [112, c_or, c_not, 112] = [112]"
    by (simp add: extract_variables_filter py_def c_or_def c_not_def)
  have e1: "evaluate_formula [112, c_or, c_not, 112] [(112, py ''F'')] = Some (Inr (py ''T''))"
    by (simp add: eval_defs)
  have e2: "evaluate_formula [112, c_or, c_not, 112] [(112, py ''T'')] = Some (Inr (py ''T''))"
    by (simp add: eval_defs)
  have f: "[112, c_or, c_not, 112] \<noteq> [112]" by simp
  show ?thesis
    by (simp add: truth_table_generator_def Let_def v combinations_p e1 e2 copy_row_def)
qed

text \<open>
  C2: for a list of \<open>n\<close> distinct variables (a sorted variable list has no duplicates),
  \<open>generate_truth_combinations\<close> returns \<open>2 ^ n\<close> assignments; assignment \<open>i\<close> has the
  variables as its keys, in their order, and maps variable \<open>j\<close> to \<open>'T'\<close> exactly when
  bit \<open>n - 1 - j\<close> of \<open>i\<close> is set, the \<open>j\<close>-th bit from the most significant end of the
  \<open>n\<close>-bit representation of \<open>i\<close>. A table shown for a formula has \<open>2 ^ n\<close> rows for its
  \<open>n\<close> variables, and row \<open>i\<close> is assignment \<open>i\<close> with the column of the result added.
\<close>

theorem truth_combinations_canonical:
  "(distinct variables \<longrightarrow>
      length (generate_truth_combinations variables) = 2 ^ length variables
    \<and> (\<forall>i < 2 ^ length variables.
         map fst (generate_truth_combinations variables ! i) = variables
       \<and> (\<forall>j < length variables.
            map_of (generate_truth_combinations variables ! i) (variables ! j)
              = Some (if odd (i div 2 ^ (length variables - 1 - j)) then py ''T'' else py ''F''))))
   \<and> (truth_table_generator formula = Some (TruthTable ft rows) \<longrightarrow>
      length rows = 2 ^ length (extract_variables formula)
    \<and> (\<forall>i < length rows. \<exists>res.
         evaluate_formula formula (generate_truth_combinations (extract_variables formula) ! i)
           = Some (Inr res)
       \<and> rows ! i = AList.update formula res
           (copy_row (generate_truth_combinations (extract_variables formula) ! i))))"
proof (intro conjI impI)
  assume d: "distinct variables"
  show "length (generate_truth_combinations variables) = 2 ^ length variables"
    by (rule length_generate_truth_combinations)
  show "\<forall>i < 2 ^ length variables.
         map fst (generate_truth_combinations variables ! i) = variables
       \<and> (\<forall>j < length variables.
            map_of (generate_truth_combinations variables ! i) (variables ! j)
              = Some (if odd (i div 2 ^ (length variables - 1 - j)) then py ''T'' else py ''F''))"
  proof (intro allI impI conjI)
    fix i :: nat assume i: "i < 2 ^ length variables"
    let ?g = "\<lambda>j. if odd (i div 2 ^ (length variables - 1 - j)) then py ''T'' else py ''F''"
    have c: "generate_truth_combinations variables ! i
               = map (\<lambda>j. (variables ! j, ?g j)) [0..<length variables]"
      using i by (simp add: generate_truth_combinations_eq [OF d])
    show "map fst (generate_truth_combinations variables ! i) = variables"
      unfolding c by (simp add: comp_def map_nth)
    fix j assume j: "j < length variables"
    have "(variables ! j, ?g j) \<in> set (map (\<lambda>j. (variables ! j, ?g j)) [0..<length variables])"
      using j by auto
    moreover have "distinct (map fst (map (\<lambda>j. (variables ! j, ?g j)) [0..<length variables]))"
      using d by (simp add: comp_def map_nth)
    ultimately show "map_of (generate_truth_combinations variables ! i) (variables ! j) = Some (?g j)"
      unfolding c by (rule map_of_is_SomeI [rotated])
  qed
next
  assume t: "truth_table_generator formula = Some (TruthTable ft rows)"
  let ?cs = "generate_truth_combinations (extract_variables formula)"
  from truth_table_generator_table [OF t] obtain results where
    ev: "evaluate_all formula ?cs = Some (Inr results)"
    and rows: "rows = map (\<lambda>(combo, res). AList.update formula res (copy_row combo)) (zip ?cs results)"
    by blast
  have len: "length results = length ?cs" using ev by (rule evaluate_all_length)
  show "length rows = 2 ^ length (extract_variables formula)"
    unfolding rows using len by (simp add: length_generate_truth_combinations)
  show "\<forall>i < length rows. \<exists>res.
         evaluate_formula formula (?cs ! i) = Some (Inr res)
       \<and> rows ! i = AList.update formula res (copy_row (?cs ! i))"
  proof (intro allI impI)
    fix i assume "i < length rows"
    then have i: "i < length ?cs" unfolding rows using len by simp
    have "evaluate_formula formula (?cs ! i) = Some (Inr (results ! i))"
      using ev i by (rule evaluate_all_nth)
    moreover have "rows ! i = AList.update formula (results ! i) (copy_row (?cs ! i))"
      unfolding rows using i len by simp
    ultimately show "\<exists>res. evaluate_formula formula (?cs ! i) = Some (Inr res)
       \<and> rows ! i = AList.update formula res (copy_row (?cs ! i))" by blast
  qed
qed

theorem truth_combinations_canonical_witness:
  "distinct [112, 113::nat]
   \<and> length (generate_truth_combinations [112, 113]) = 4
   \<and> map_of (generate_truth_combinations [112, 113] ! 2) 112 = Some (py ''T'')
   \<and> map_of (generate_truth_combinations [112, 113] ! 2) 113 = Some (py ''F'')
   \<and> (\<exists>ft rows. truth_table_generator [112, c_or, c_not, 112] = Some (TruthTable ft rows)
        \<and> length rows = 2)"
proof -
  have t: "truth_table_generator [112, c_or, c_not, 112] =
     Some (TruthTable Tautology [[([112], py ''F''), ([112, c_or, c_not, 112], py ''T'')],
                                 [([112], py ''T''), ([112, c_or, c_not, 112], py ''T'')]])"
    by (rule excluded_middle_table)
  have d: "distinct [112, 113::nat]" by simp
  note w = truth_combinations_canonical [of "[112, 113]" "[112, c_or, c_not, 112]" Tautology
      "[[([112], py ''F''), ([112, c_or, c_not, 112], py ''T'')],
        [([112], py ''T''), ([112, c_or, c_not, 112], py ''T'')]]"]
  from w d have "length (generate_truth_combinations [112, 113]) = 2 ^ length [112, 113::nat]"
    by blast
  moreover from w d have j: "\<forall>j < length [112, 113::nat].
      map_of (generate_truth_combinations [112, 113] ! 2) ([112, 113] ! j)
        = Some (if odd ((2::nat) div 2 ^ (length [112, 113::nat] - 1 - j)) then py ''T'' else py ''F'')"
    by simp
  from j [rule_format, of 0] j [rule_format, of 1]
  have "map_of (generate_truth_combinations [112, 113] ! 2) 112 = Some (py ''T'')"
    and "map_of (generate_truth_combinations [112, 113] ! 2) 113 = Some (py ''F'')"
    by simp_all
  moreover from w t have "length [[([112::nat], py ''F''), ([112, c_or, c_not, 112], py ''T'')],
        [([112], py ''T''), ([112, c_or, c_not, 112], py ''T'')]] = 2 ^ length (extract_variables [112, c_or, c_not, 112])"
    by blast
  ultimately show ?thesis
    using d t \<open>map_of (generate_truth_combinations [112, 113] ! 2) 112 = Some (py ''T'')\<close>
      \<open>map_of (generate_truth_combinations [112, 113] ! 2) 113 = Some (py ''F'')\<close>
    by simp
qed

lemma evaluate_all_total:
  assumes "\<forall>c \<in> set cs. \<exists>res. evaluate_formula f c = Some (Inr res)"
  shows "evaluate_all f cs = Some (Inr (map (\<lambda>c. result_of (evaluate_formula f c)) cs))"
proof (rule evaluate_all_map, rule ballI)
  fix c assume "c \<in> set cs"
  with assms obtain res where "evaluate_formula f c = Some (Inr res)" by blast
  then show "evaluate_formula f c = Some (Inr (result_of (evaluate_formula f c)))" by simp
qed

lemma contradiction_table:
  "extract_variables [112, c_and, c_not, 112] = [112]"
  "evaluate_formula [112, c_and, c_not, 112] [(112, py ''F'')] = Some (Inr (py ''F''))"
  "evaluate_formula [112, c_and, c_not, 112] [(112, py ''T'')] = Some (Inr (py ''F''))"
  by (simp_all add: extract_variables_filter eval_defs)

text \<open>
  C3: a formula that has a variable and evaluates under every assignment of its
  variables is shown with a table and a classification. The row of an assignment is the
  assignment with the result of the formula under it; the classification is the
  tautology label exactly when the result is \<open>'T'\<close> under every assignment, the
  contradiction label exactly when it is \<open>'F'\<close> under every assignment, and the third
  label exactly when neither holds.
\<close>

theorem classification_by_rows:
  assumes "extract_variables formula \<noteq> []"
    and "combos = generate_truth_combinations (extract_variables formula)"
    and "\<forall>combo \<in> set combos. \<exists>res. evaluate_formula formula combo = Some (Inr res)"
  shows "\<exists>ft rows.
      truth_table_generator formula = Some (TruthTable ft rows)
    \<and> rows = map (\<lambda>combo. AList.update formula (result_of (evaluate_formula formula combo))
                            (copy_row combo)) combos
    \<and> (ft = Tautology
         \<longleftrightarrow> (\<forall>combo \<in> set combos. evaluate_formula formula combo = Some (Inr (py ''T''))))
    \<and> (ft = Contradiction
         \<longleftrightarrow> (\<forall>combo \<in> set combos. evaluate_formula formula combo = Some (Inr (py ''F''))))
    \<and> (ft = Satisfiable
         \<longleftrightarrow> \<not> (\<forall>combo \<in> set combos. evaluate_formula formula combo = Some (Inr (py ''T'')))
           \<and> \<not> (\<forall>combo \<in> set combos. evaluate_formula formula combo = Some (Inr (py ''F''))))"
proof -
  define g where "g = (\<lambda>c. result_of (evaluate_formula formula c))"
  define ft where "ft = (if list_all (\<lambda>res. res = py ''T'') (map g combos) then Tautology
                  else if list_all (\<lambda>res. res = py ''F'') (map g combos) then Contradiction
                  else Satisfiable)"
  have ev: "evaluate_all formula combos = Some (Inr (map g combos))"
    unfolding g_def using assms(3) by (rule evaluate_all_total)
  have ne: "formula \<noteq> []"
    using assms(1) by (auto simp: extract_variables_def)
  have rows: "map (\<lambda>(combo, res). AList.update formula res (copy_row combo))
        (zip combos (map g combos))
      = map (\<lambda>combo. AList.update formula (g combo) (copy_row combo)) combos"
    by (intro nth_equalityI) simp_all
  have shown: "truth_table_generator formula
      = Some (TruthTable ft (map (\<lambda>combo. AList.update formula (g combo) (copy_row combo)) combos))"
    using ne assms(1) ev [unfolded assms(2)] rows [unfolded assms(2)]
    by (simp add: truth_table_generator_def Let_def ft_def assms(2))
  have col: "list_all (\<lambda>res. res = x) (map g combos)
      \<longleftrightarrow> (\<forall>combo \<in> set combos. evaluate_formula formula combo = Some (Inr x))" for x
  proof -
    have "g c = x \<longleftrightarrow> evaluate_formula formula c = Some (Inr x)" if "c \<in> set combos" for c
    proof -
      from assms(3) that obtain res where "evaluate_formula formula c = Some (Inr res)" by blast
      then show ?thesis by (simp add: g_def)
    qed
    then show ?thesis by (auto simp: list_all_iff)
  qed
  have "combos \<noteq> []"
    using length_generate_truth_combinations [of "extract_variables formula"]
    by (auto simp: assms(2))
  then have excl: "\<not> (list_all (\<lambda>res. res = py ''T'') (map g combos)
      \<and> list_all (\<lambda>res. res = py ''F'') (map g combos))"
    using py_T_neq_F by (cases combos) auto
  have "(ft = Tautology \<longleftrightarrow> list_all (\<lambda>res. res = py ''T'') (map g combos))
      \<and> (ft = Contradiction \<longleftrightarrow> list_all (\<lambda>res. res = py ''F'') (map g combos))
      \<and> (ft = Satisfiable \<longleftrightarrow> \<not> list_all (\<lambda>res. res = py ''T'') (map g combos)
            \<and> \<not> list_all (\<lambda>res. res = py ''F'') (map g combos))"
    unfolding ft_def using excl by auto
  then have "(ft = Tautology
         \<longleftrightarrow> (\<forall>combo \<in> set combos. evaluate_formula formula combo = Some (Inr (py ''T''))))
    \<and> (ft = Contradiction
         \<longleftrightarrow> (\<forall>combo \<in> set combos. evaluate_formula formula combo = Some (Inr (py ''F''))))
    \<and> (ft = Satisfiable
         \<longleftrightarrow> \<not> (\<forall>combo \<in> set combos. evaluate_formula formula combo = Some (Inr (py ''T'')))
           \<and> \<not> (\<forall>combo \<in> set combos. evaluate_formula formula combo = Some (Inr (py ''F''))))"
    by (simp only: col)
  with shown [unfolded g_def] show ?thesis by blast
qed

theorem classification_by_rows_witness:
  "extract_variables [112, c_and, c_not, 112] = [112]
   \<and> generate_truth_combinations [112] = [[(112, py ''F'')], [(112, py ''T'')]]
   \<and> evaluate_formula [112, c_and, c_not, 112] [(112, py ''F'')] = Some (Inr (py ''F''))
   \<and> evaluate_formula [112, c_and, c_not, 112] [(112, py ''T'')] = Some (Inr (py ''F''))
   \<and> (\<exists>rows. truth_table_generator [112, c_and, c_not, 112]
                = Some (TruthTable Contradiction rows))"
proof -
  note c = contradiction_table
  have v: "extract_variables [112, c_and, c_not, 112] \<noteq> []" by (simp add: c)
  have cs: "[[(112, py ''F'')], [(112, py ''T'')]]
      = generate_truth_combinations (extract_variables [112, c_and, c_not, 112])"
    by (simp add: c combinations_p)
  have ev: "\<forall>combo \<in> set [[(112, py ''F'')], [(112, py ''T'')]].
      \<exists>res. evaluate_formula [112, c_and, c_not, 112] combo = Some (Inr res)"
    by (simp add: c)
  from classification_by_rows [OF v cs ev] obtain ft rows where
    t: "truth_table_generator [112, c_and, c_not, 112] = Some (TruthTable ft rows)"
    and f: "ft = Contradiction \<longleftrightarrow>
      (\<forall>combo \<in> set [[(112, py ''F'')], [(112, py ''T'')]].
         evaluate_formula [112, c_and, c_not, 112] combo = Some (Inr (py ''F'')))"
    by blast
  from f have "ft = Contradiction" by (simp add: c)
  with t c combinations_p show ?thesis by simp
qed

section \<open>Blank input\<close>

text \<open>
  C7, as stated, fails: the empty input is not answered with an error at all (the page
  shows nothing).
\<close>

theorem empty_input_shows_nothing:
  "truth_table_generator [] = Some NoOutput"
  by (simp add: truth_table_generator_def)

text \<open>
  C7, amended: for a blank input the program has no error of its own. The empty input
  shows nothing, and a non-empty input of white space only is answered with the message
  for a formula without variables.
\<close>

theorem blank_input_view:
  assumes "blank formula"
  shows "truth_table_generator formula
           = Some (if formula = [] then NoOutput else NoVariablesError)"
proof -
  have "set formula \<inter> var_chars = {}"
    using assms by (auto simp: blank_def list_all_iff var_chars_def)
  then have "extract_variables formula = []"
    using extract_variables_set [of formula] by simp
  then show ?thesis by (simp add: truth_table_generator_def)
qed

theorem blank_input_view_witness:
  "blank (py ''  '') \<and> truth_table_generator (py ''  '') = Some NoVariablesError"
proof -
  have b: "blank (py ''  '')" by (simp add: blank_def py_def)
  from blank_input_view [OF b] b show ?thesis by (simp add: py_def)
qed

section \<open>Substituting the variables\<close>

lemma re_sub_from_sub_in: "re_sub_from prev v r xs = sub_in prev False v r xs"
  by (induction xs arbitrary: prev) (auto simp: first_word_def split: list.splits)

lemma sub_in_append:
  "sub_in p n v r (xs @ ys)
     = sub_in p (first_word ys n) v r xs @ sub_in (last_word p xs) n v r ys"
proof (induction xs arbitrary: p)
  case Nil
  then show ?case by (simp add: last_word_def)
next
  case (Cons c cs)
  have fw: "first_word (cs @ ys) n = first_word cs (first_word ys n)"
    by (cases cs) (simp_all add: first_word_def)
  have lw: "last_word p (c # cs) = last_word (is_word c) cs"
    by (simp add: last_word_def)
  show ?case by (auto simp: Cons.IH fw lw)
qed

lemma first_word_sub_in:
  "is_word v \<Longrightarrow> r \<noteq> [] \<Longrightarrow> is_word (hd r) \<Longrightarrow>
   first_word (sub_in p n v r xs) n = first_word xs n"
  by (cases xs; cases r) (auto simp: first_word_def)

lemma sub_in_after_word:
  "list_all is_word w \<Longrightarrow> sub_in True n v r w = w"
  by (induction w) auto

lemma sub_in_word:
  "list_all is_word w \<Longrightarrow> 2 \<le> length w \<Longrightarrow> sub_in p n v r w = w"
  by (cases w; cases "tl w") (auto simp: first_word_def sub_in_after_word)

lemma sub_in_word_append:
  assumes "list_all is_word w" "2 \<le> length w"
  shows "sub_in p n v r (w @ ys) = w @ sub_in True n v r ys"
proof -
  have "last_word p w = True"
    using assms by (cases w rule: rev_cases) (auto simp: last_word_def)
  then show ?thesis by (simp add: sub_in_append sub_in_word [OF assms])
qed

lemma sub_in_commute:
  assumes ab: "a \<noteq> b" and wa: "is_word a" and wb: "is_word b"
    and ra: "list_all is_word ra" "2 \<le> length ra"
    and rb: "list_all is_word rb" "2 \<le> length rb"
  shows "sub_in p n a ra (sub_in p n b rb xs) = sub_in p n b rb (sub_in p n a ra xs)"
proof (induction xs arbitrary: p)
  case Nil
  then show ?case by simp
next
  case (Cons c cs)
  have hra: "ra \<noteq> []" "is_word (hd ra)" using ra by (cases ra; simp)+
  have hrb: "rb \<noteq> []" "is_word (hd rb)" using rb by (cases rb; simp)+
  note fw = first_word_sub_in [OF wa hra] first_word_sub_in [OF wb hrb]
  show ?case
    using ab wa wb
    by (auto simp: fw sub_in_word_append [OF ra] sub_in_word_append [OF rb] Cons.IH)
qed

lemma re_sub_commute:
  assumes "a \<noteq> b" "a \<in> var_chars" "b \<in> var_chars"
  shows "re_sub a (constant_text x) (re_sub b (constant_text y) s)
       = re_sub b (constant_text y) (re_sub a (constant_text x) s)"
proof -
  have w: "is_word a" "is_word b"
    using assms by (auto simp: var_chars_def is_word_def)
  have c: "list_all is_word (constant_text z) \<and> 2 \<le> length (constant_text z)" for z
    by (simp add: constant_text_def py_def is_word_def)
  show ?thesis
    unfolding re_sub_def re_sub_from_sub_in
    using sub_in_commute [OF assms(1) w] c by blast
qed

lemma substituted_fold:
  "substituted tv s = fold (\<lambda>kv. re_sub (fst kv) (constant_text (snd kv))) tv s"
  unfolding substituted_def constant_text_def
  by (rule arg_cong [where f = "\<lambda>f. fold f tv s"]) auto

lemma substituted_permuted:
  assumes d: "distinct (map fst tv)" and k: "list_all (\<lambda>k. k \<in> var_chars) (map fst tv)"
    and m: "mset tv' = mset tv"
  shows "substituted tv' s = substituted tv s"
proof -
  have "fold (\<lambda>kv. re_sub (fst kv) (constant_text (snd kv))) tv
      = fold (\<lambda>kv. re_sub (fst kv) (constant_text (snd kv))) tv'"
  proof (rule fold_multiset_equiv)
    fix x y assume x: "x \<in> set tv" and y: "y \<in> set tv"
    show "re_sub (fst x) (constant_text (snd x)) \<circ> re_sub (fst y) (constant_text (snd y))
        = re_sub (fst y) (constant_text (snd y)) \<circ> re_sub (fst x) (constant_text (snd x))"
    proof (cases "x = y")
      case True
      then show ?thesis by simp
    next
      case False
      with d x y have "fst x \<noteq> fst y"
        by (metis eq_key_imp_eq_value prod.collapse)
      moreover from k x y have "fst x \<in> var_chars" "fst y \<in> var_chars"
        by (auto simp: list_all_iff)
      ultimately show ?thesis by (auto simp: fun_eq_iff intro: re_sub_commute)
    qed
  qed (simp add: m)
  then show ?thesis by (simp add: substituted_fold)
qed

lemma evaluate_formula_substituted:
  "evaluate_formula formula tv =
     (if \<not> list_all classified formula then None
      else case py_eval (str_replace c_iff (py '' == '') (str_replace c_imp (py '' <= '')
             (str_replace c_or (py '' or '') (str_replace c_and (py '' and '')
               (str_replace c_not (py ''not '') (substituted tv formula)))))) of
             None \<Rightarrow> None
           | Some (Inl e) \<Rightarrow> Some (Inl ValueError)
           | Some (Inr result) \<Rightarrow> Some (Inr (if truthy result then py ''T'' else py ''F'')))"
  by (simp add: evaluate_formula_def substituted_def Let_def)

text \<open>
  C10: the result of \<open>evaluate_formula\<close> does not depend on the order of the keys of the
  assignment. Replacing a variable leaves the constants \<open>True\<close> and \<open>False\<close> written for
  the variables replaced before as they are (a letter inside a word is not at a word
  boundary), so the text after the substitutions, and with it the result, is the same
  for every order of the same assignment.
\<close>

theorem substitution_order_independent:
  assumes "distinct (map fst tv)"
    and "list_all (\<lambda>k. k \<in> var_chars) (map fst tv)"
    and "mset tv' = mset tv"
  shows "re_sub_from prev var repl (py ''True'' @ rest) = py ''True'' @ re_sub_from True var repl rest
       \<and> re_sub_from prev var repl (py ''False'' @ rest) = py ''False'' @ re_sub_from True var repl rest
       \<and> fold (\<lambda>(var, val). re_sub var (if val = py ''T'' then py ''True'' else py ''False'')) tv' formula
           = fold (\<lambda>(var, val). re_sub var (if val = py ''T'' then py ''True'' else py ''False'')) tv formula
       \<and> evaluate_formula formula tv' = evaluate_formula formula tv"
proof -
  have t: "list_all is_word (py ''True'')" "2 \<le> length (py ''True'')"
    and f: "list_all is_word (py ''False'')" "2 \<le> length (py ''False'')"
    by (simp_all add: py_def is_word_def)
  have s: "substituted tv' formula = substituted tv formula"
    using assms by (rule substituted_permuted)
  show ?thesis
    unfolding re_sub_from_sub_in
    using s sub_in_word_append [OF t] sub_in_word_append [OF f]
    by (simp add: evaluate_formula_substituted substituted_def)
qed

theorem substitution_order_independent_witness:
  "distinct (map fst [(114::nat, py ''T''), (115, py ''F'')])
   \<and> list_all (\<lambda>k. k \<in> var_chars) (map fst [(114::nat, py ''T''), (115, py ''F'')])
   \<and> mset [(115::nat, py ''F''), (114, py ''T'')] = mset [(114, py ''T''), (115, py ''F'')]
   \<and> evaluate_formula [114, c_or, 115] [(115, py ''F''), (114, py ''T'')] = Some (Inr (py ''T''))
   \<and> evaluate_formula [114, c_or, 115] [(114, py ''T''), (115, py ''F'')] = Some (Inr (py ''T''))"
proof -
  have d: "distinct (map fst [(114::nat, py ''T''), (115, py ''F'')])" by simp
  have k: "list_all (\<lambda>k. k \<in> var_chars) (map fst [(114::nat, py ''T''), (115, py ''F'')])"
    by (simp add: var_chars_def)
  have m: "mset [(115::nat, py ''F''), (114, py ''T'')] = mset [(114, py ''T''), (115, py ''F'')]"
    by (simp add: add_mset_commute)
  have e: "evaluate_formula [114, c_or, 115] [(114, py ''T''), (115, py ''F'')] = Some (Inr (py ''T''))"
    by (simp add: eval_defs)
  from substitution_order_independent [OF d k m, of False 0 "[]" "[]" "[114, c_or, 115]"]
  have "evaluate_formula [114, c_or, 115] [(115, py ''F''), (114, py ''T'')]
      = evaluate_formula [114, c_or, 115] [(114, py ''T''), (115, py ''F'')]" by blast
  with d k m e show ?thesis by simp
qed

section \<open>The text of a formula through the substitutions\<close>


lemma var_char_in: "var_char v \<in> var_chars"
  by (cases v) (simp_all add: var_chars_def)














section \<open>The text of a formula through the replacements\<close>






section \<open>The tokens of a formula\<close>









section \<open>The repetitions of the parser\<close>












section \<open>From a level of the grammar to the looser ones\<close>











section \<open>Parsing the tokens of a formula\<close>
















section \<open>The limits of the interpreter\<close>



lemma deepest_skip: "t \<noteq> TLp \<Longrightarrow> t \<noteq> TRp \<Longrightarrow> deepest lv (t # ts) = deepest lv ts"
  by simp







section \<open>Evaluating the text of a formula\<close>







section \<open>The connectives\<close>





section \<open>Precedence\<close>




section \<open>Characters outside the alphabet\<close>




section \<open>A formula in parentheses\<close>


lemma closing_Some: "closing x = Some (a, r) \<longleftrightarrow> x = Some (a, TRp # r)"
  by (auto simp: closing_def split: option.splits list.splits if_splits)















lemma hd_append_ne: "ts \<noteq> [] \<Longrightarrow> hd (ts @ x) = hd ts"
  by simp






lemma next_cmp_Some_ne: "next_cmp ts = Some op \<Longrightarrow> ts \<noteq> []"
  by (auto simp: next_cmp_def)



lemma p_cmp_Nil: "p_cmp D [] = None"
  by (simp add: p_cmp_def p_primary_def p_atom_def)


















section \<open>The size of a text and of its tokens\<close>














section \<open>The classification of a negation\<close>


lemma combination_keys:
  assumes "distinct vs" and "c \<in> set (generate_truth_combinations vs)"
  shows "map fst c = vs"
  using assms(2) unfolding generate_truth_combinations_eq [OF assms(1)]
  by (auto simp: comp_def map_nth)










section \<open>The equivalence report\<close>

lemma evaluate_all_eq_map:
  assumes "evaluate_all f cs = Some (Inr rs)"
  shows "rs = map (\<lambda>c. result_of (evaluate_formula f c)) cs"
proof (rule nth_equalityI)
  show "length rs = length (map (\<lambda>c. result_of (evaluate_formula f c)) cs)"
    using evaluate_all_length [OF assms] by simp
next
  fix i assume "i < length rs"
  then have i: "i < length cs" using evaluate_all_length [OF assms] by simp
  from evaluate_all_nth [OF assms i] i
  show "rs ! i = map (\<lambda>c. result_of (evaluate_formula f c)) cs ! i" by simp
qed

lemma enumerate_zip:
  assumes "length r1 = length cs" "length r2 = length cs"
  shows "zip [0..<length cs] (zip cs (zip r1 r2))
       = map (\<lambda>i. (i, cs ! i, r1 ! i, r2 ! i)) [0..<length cs]"
  using assms by (intro nth_equalityI) simp_all

lemma formula_equivalence_report:
  assumes "formula_equivalence formula1 formula2 = Some (Report rep)"
  shows "\<exists>results1 results2.
      evaluate_all formula1 (union_combinations formula1 formula2) = Some (Inr results1)
    \<and> evaluate_all formula2 (union_combinations formula1 formula2) = Some (Inr results2)
    \<and> rep = (let enumerated = zip [0..<length (union_combinations formula1 formula2)]
                 (zip (union_combinations formula1 formula2) (zip results1 results2));
               differences = filter (\<lambda>(idx, combo, res1, res2). res1 \<noteq> res2) enumerated
           in \<lparr> is_equivalent = (length differences = 0),
                difference_count = length differences,
                comparison_table =
                  map (\<lambda>(idx, combo, res1, res2).
                         AList.update consistent_key
                           (if res1 = res2 then check_mark else cross_mark)
                           (AList.update formula2 res2
                              (AList.update formula1 res1 (copy_row combo))))
                      enumerated,
                difference_lines =
                  map (\<lambda>(idx, combo, res1, res2). (idx + 1, combo, res1, res2)) differences \<rparr>)"
  using assms
  by (auto simp: formula_equivalence_def union_combinations_def Let_def
      split: if_splits option.splits sum.splits)

lemma union_combinations_p_q:
  "union_combinations [112, c_iff, 113] [112, c_and, 113] =
     [[(112, py ''F''), (113, py ''F'')], [(112, py ''F''), (113, py ''T'')],
      [(112, py ''T''), (113, py ''F'')], [(112, py ''T''), (113, py ''T'')]]"
proof -
  have "set (extract_variables [112, c_iff, 113]) \<union> set (extract_variables [112, c_and, 113])
      = set [112, 113]"
    by (simp add: extract_variables_filter py_def c_iff_def c_and_def)
  moreover have "sorted_list_of_set (set [112, 113::nat]) = [112, 113]"
    by (rule sorted_list_of_set.idem_if_sorted_distinct) simp_all
  ultimately show ?thesis
    by (simp only: union_combinations_def combinations_pq)
qed

lemma report_contents:
  assumes "formula_equivalence formula1 formula2 = Some (Report rep)"
  shows "(\<forall>combo \<in> set (union_combinations formula1 formula2).
            map fst combo = sorted_list_of_set
              (set (extract_variables formula1) \<union> set (extract_variables formula2)))
       \<and> comparison_table rep =
            map (\<lambda>i. AList.update consistent_key
                       (if evaluate_formula formula1 (union_combinations formula1 formula2 ! i)
                           = evaluate_formula formula2 (union_combinations formula1 formula2 ! i)
                        then check_mark else cross_mark)
                       (AList.update formula2
                          (result_of (evaluate_formula formula2 (union_combinations formula1 formula2 ! i)))
                          (AList.update formula1
                             (result_of (evaluate_formula formula1 (union_combinations formula1 formula2 ! i)))
                             (copy_row (union_combinations formula1 formula2 ! i)))))
                [0..<length (union_combinations formula1 formula2)]
       \<and> (is_equivalent rep \<longleftrightarrow>
            (\<forall>i < length (union_combinations formula1 formula2).
               evaluate_formula formula1 (union_combinations formula1 formula2 ! i)
                 = evaluate_formula formula2 (union_combinations formula1 formula2 ! i)))
       \<and> difference_lines rep =
            map (\<lambda>i. (i + 1, union_combinations formula1 formula2 ! i,
                       result_of (evaluate_formula formula1 (union_combinations formula1 formula2 ! i)),
                       result_of (evaluate_formula formula2 (union_combinations formula1 formula2 ! i))))
                (filter (\<lambda>i. evaluate_formula formula1 (union_combinations formula1 formula2 ! i)
                               \<noteq> evaluate_formula formula2 (union_combinations formula1 formula2 ! i))
                   [0..<length (union_combinations formula1 formula2)])
       \<and> difference_count rep = length (difference_lines rep)"
proof -
  define cs where "cs = union_combinations formula1 formula2"
  define e1 where "e1 = (\<lambda>i. evaluate_formula formula1 (cs ! i))"
  define e2 where "e2 = (\<lambda>i. evaluate_formula formula2 (cs ! i))"
  from formula_equivalence_report [OF assms] obtain r1 r2 where
    ev1: "evaluate_all formula1 cs = Some (Inr r1)"
    and ev2: "evaluate_all formula2 cs = Some (Inr r2)"
    and rep: "rep = (let enumerated = zip [0..<length cs] (zip cs (zip r1 r2));
               differences = filter (\<lambda>(idx, combo, res1, res2). res1 \<noteq> res2) enumerated
           in \<lparr> is_equivalent = (length differences = 0),
                difference_count = length differences,
                comparison_table =
                  map (\<lambda>(idx, combo, res1, res2).
                         AList.update consistent_key
                           (if res1 = res2 then check_mark else cross_mark)
                           (AList.update formula2 res2
                              (AList.update formula1 res1 (copy_row combo))))
                      enumerated,
                difference_lines =
                  map (\<lambda>(idx, combo, res1, res2). (idx + 1, combo, res1, res2)) differences \<rparr>)"
    unfolding cs_def by blast
  have l1: "length r1 = length cs" and l2: "length r2 = length cs"
    using evaluate_all_length [OF ev1] evaluate_all_length [OF ev2] by simp_all
  have n1: "e1 i = Some (Inr (r1 ! i))" and n2: "e2 i = Some (Inr (r2 ! i))"
    if "i < length cs" for i
    using evaluate_all_nth [OF ev1 that] evaluate_all_nth [OF ev2 that]
    by (simp_all add: e1_def e2_def)
  have differ: "r1 ! i \<noteq> r2 ! i \<longleftrightarrow> e1 i \<noteq> e2 i" if "i < length cs" for i
    using n1 [OF that] n2 [OF that] by simp
  have en: "zip [0..<length cs] (zip cs (zip r1 r2))
      = map (\<lambda>i. (i, cs ! i, r1 ! i, r2 ! i)) [0..<length cs]"
    using l1 l2 by (rule enumerate_zip)
  have fi: "filter (\<lambda>i. r1 ! i \<noteq> r2 ! i) [0..<length cs] = filter (\<lambda>i. e1 i \<noteq> e2 i) [0..<length cs]"
    by (rule filter_cong) (simp_all add: differ)
  have diffs: "filter (\<lambda>(idx, combo, res1, res2). res1 \<noteq> res2)
        (zip [0..<length cs] (zip cs (zip r1 r2)))
      = map (\<lambda>i. (i, cs ! i, r1 ! i, r2 ! i)) (filter (\<lambda>i. e1 i \<noteq> e2 i) [0..<length cs])"
    unfolding en filter_map fi [symmetric] by (simp add: comp_def)
  have lines: "difference_lines rep
      = map (\<lambda>i. (i + 1, cs ! i, result_of (e1 i), result_of (e2 i)))
          (filter (\<lambda>i. e1 i \<noteq> e2 i) [0..<length cs])"
    unfolding rep Let_def diffs
    by (simp add: comp_def n1 n2)
  have count: "difference_count rep = length (difference_lines rep)"
    unfolding rep Let_def by simp
  have table: "comparison_table rep
      = map (\<lambda>i. AList.update consistent_key (if e1 i = e2 i then check_mark else cross_mark)
                   (AList.update formula2 (result_of (e2 i))
                      (AList.update formula1 (result_of (e1 i)) (copy_row (cs ! i)))))
            [0..<length cs]"
    unfolding rep Let_def en
    using differ by (simp add: comp_def n1 n2)
  have verdict: "is_equivalent rep \<longleftrightarrow> (\<forall>i < length cs. e1 i = e2 i)"
  proof -
    have "is_equivalent rep \<longleftrightarrow> filter (\<lambda>i. e1 i \<noteq> e2 i) [0..<length cs] = []"
      unfolding rep Let_def diffs by simp
    then show ?thesis by (auto simp: filter_empty_conv)
  qed
  have keys: "\<forall>combo \<in> set cs. map fst combo = sorted_list_of_set
      (set (extract_variables formula1) \<union> set (extract_variables formula2))"
    unfolding cs_def union_combinations_def
    by (intro ballI combination_keys) simp_all
  show ?thesis
    using keys table verdict lines count
    unfolding cs_def e1_def e2_def by blast
qed


lemma substituted_empty: "substituted tv [] = []"
  by (induction tv) (simp_all add: substituted_def re_sub_def split_def)

lemma evaluate_formula_empty: "evaluate_formula [] tv = Some (Inl ValueError)"
  by (simp add: evaluate_formula_substituted substituted_empty str_replace_def py_eval_def
      py_tokens_def flush_def marks_def py_parse_def p_disj_def p_conj_def p_cmp_def
      p_primary_def p_atom_def)

lemma map_nth_of: "map (\<lambda>i. f (xs ! i)) [0..<length xs] = map f xs"
  by (intro nth_equalityI) simp_all

text \<open>
  C4: two formulas that both evaluate under every assignment of the sorted union of
  their variables get a report. Its table has one row for each of these assignments, in
  their order: the assignment, the two results and the mark of their agreement. The
  verdict is ``equivalent'' exactly when the two results agree under every one of the
  assignments, and the difference lines are, in order, the rows where they differ: each
  with its row number counted from 1, the full assignment and both results.
\<close>

theorem equivalence_report_contents:
  assumes "combos = generate_truth_combinations (sorted_list_of_set
             (set (extract_variables formula1) \<union> set (extract_variables formula2)))"
    and "\<forall>combo \<in> set combos. \<exists>res. evaluate_formula formula1 combo = Some (Inr res)"
    and "\<forall>combo \<in> set combos. \<exists>res. evaluate_formula formula2 combo = Some (Inr res)"
  shows "\<exists>rep.
      formula_equivalence formula1 formula2 = Some (Report rep)
    \<and> (is_equivalent rep \<longleftrightarrow>
         (\<forall>combo \<in> set combos.
            evaluate_formula formula1 combo = evaluate_formula formula2 combo))
    \<and> comparison_table rep =
         map (\<lambda>combo. AList.update consistent_key
                         (if evaluate_formula formula1 combo = evaluate_formula formula2 combo
                          then check_mark else cross_mark)
                         (AList.update formula2 (result_of (evaluate_formula formula2 combo))
                            (AList.update formula1 (result_of (evaluate_formula formula1 combo))
                               (copy_row combo))))
             combos
    \<and> difference_lines rep =
         map (\<lambda>i. (i + 1, combos ! i,
                    result_of (evaluate_formula formula1 (combos ! i)),
                    result_of (evaluate_formula formula2 (combos ! i))))
             (filter (\<lambda>i. evaluate_formula formula1 (combos ! i)
                            \<noteq> evaluate_formula formula2 (combos ! i))
                [0..<length combos])
    \<and> difference_count rep = length (difference_lines rep)"
proof -
  have cs: "combos = union_combinations formula1 formula2"
    by (simp add: assms(1) union_combinations_def)
  have ne: "combos \<noteq> []"
    using length_generate_truth_combinations [of "sorted_list_of_set
      (set (extract_variables formula1) \<union> set (extract_variables formula2))"]
    by (auto simp: assms(1))
  then obtain c where c: "c \<in> set combos" by (cases combos) auto
  from assms(2,3) c evaluate_formula_empty [of c]
  have f: "formula1 \<noteq> []" "formula2 \<noteq> []" by auto
  note ev = evaluate_all_total [OF assms(2)] evaluate_all_total [OF assms(3)]
  from f ev obtain rep where rep: "formula_equivalence formula1 formula2 = Some (Report rep)"
    by (simp add: formula_equivalence_def Let_def assms(1))
  note r = report_contents [OF rep, folded cs]
  have v: "is_equivalent rep \<longleftrightarrow>
      (\<forall>combo \<in> set combos. evaluate_formula formula1 combo = evaluate_formula formula2 combo)"
    using r by (simp add: all_set_conv_all_nth)
  have t: "comparison_table rep =
         map (\<lambda>combo. AList.update consistent_key
                         (if evaluate_formula formula1 combo = evaluate_formula formula2 combo
                          then check_mark else cross_mark)
                         (AList.update formula2 (result_of (evaluate_formula formula2 combo))
                            (AList.update formula1 (result_of (evaluate_formula formula1 combo))
                               (copy_row combo))))
             combos"
    using r
    by (simp only: map_nth_of [of "\<lambda>combo. AList.update consistent_key
                         (if evaluate_formula formula1 combo = evaluate_formula formula2 combo
                          then check_mark else cross_mark)
                         (AList.update formula2 (result_of (evaluate_formula formula2 combo))
                            (AList.update formula1 (result_of (evaluate_formula formula1 combo))
                               (copy_row combo)))" combos])
  from rep v t r show ?thesis by blast
qed

theorem equivalence_report_contents_witness:
  "generate_truth_combinations (sorted_list_of_set
       (set (extract_variables [112, c_iff, 113]) \<union> set (extract_variables [112, c_and, 113])))
     = [[(112, py ''F''), (113, py ''F'')], [(112, py ''F''), (113, py ''T'')],
        [(112, py ''T''), (113, py ''F'')], [(112, py ''T''), (113, py ''T'')]]
   \<and> evaluate_formula [112, c_iff, 113] [(112, py ''F''), (113, py ''F'')] = Some (Inr (py ''T''))
   \<and> evaluate_formula [112, c_iff, 113] [(112, py ''F''), (113, py ''T'')] = Some (Inr (py ''F''))
   \<and> evaluate_formula [112, c_iff, 113] [(112, py ''T''), (113, py ''F'')] = Some (Inr (py ''F''))
   \<and> evaluate_formula [112, c_iff, 113] [(112, py ''T''), (113, py ''T'')] = Some (Inr (py ''T''))
   \<and> evaluate_formula [112, c_and, 113] [(112, py ''F''), (113, py ''F'')] = Some (Inr (py ''F''))
   \<and> evaluate_formula [112, c_and, 113] [(112, py ''F''), (113, py ''T'')] = Some (Inr (py ''F''))
   \<and> evaluate_formula [112, c_and, 113] [(112, py ''T''), (113, py ''F'')] = Some (Inr (py ''F''))
   \<and> evaluate_formula [112, c_and, 113] [(112, py ''T''), (113, py ''T'')] = Some (Inr (py ''T''))
   \<and> (\<exists>rep. formula_equivalence [112, c_iff, 113] [112, c_and, 113] = Some (Report rep)
        \<and> \<not> is_equivalent rep
        \<and> difference_lines rep = [(1, [(112, py ''F''), (113, py ''F'')], py ''T'', py ''F'')]
        \<and> difference_count rep = 1)"
proof -
  let ?cs = "[[(112, py ''F''), (113, py ''F'')], [(112, py ''F''), (113, py ''T'')],
        [(112, py ''T''), (113, py ''F'')], [(112, py ''T''), (113, py ''T'')]]"
  have e: "evaluate_formula [112, c_iff, 113] [(112, py ''F''), (113, py ''F'')] = Some (Inr (py ''T''))"
    "evaluate_formula [112, c_iff, 113] [(112, py ''F''), (113, py ''T'')] = Some (Inr (py ''F''))"
    "evaluate_formula [112, c_iff, 113] [(112, py ''T''), (113, py ''F'')] = Some (Inr (py ''F''))"
    "evaluate_formula [112, c_iff, 113] [(112, py ''T''), (113, py ''T'')] = Some (Inr (py ''T''))"
    "evaluate_formula [112, c_and, 113] [(112, py ''F''), (113, py ''F'')] = Some (Inr (py ''F''))"
    "evaluate_formula [112, c_and, 113] [(112, py ''F''), (113, py ''T'')] = Some (Inr (py ''F''))"
    "evaluate_formula [112, c_and, 113] [(112, py ''T''), (113, py ''F'')] = Some (Inr (py ''F''))"
    "evaluate_formula [112, c_and, 113] [(112, py ''T''), (113, py ''T'')] = Some (Inr (py ''T''))"
    by (simp_all add: eval_defs)
  have u: "generate_truth_combinations (sorted_list_of_set
      (set (extract_variables [112, c_iff, 113]) \<union> set (extract_variables [112, c_and, 113])))
    = ?cs"
    using union_combinations_p_q by (simp only: union_combinations_def)
  have e1: "\<forall>combo \<in> set ?cs. \<exists>res. evaluate_formula [112, c_iff, 113] combo = Some (Inr res)"
    and e2: "\<forall>combo \<in> set ?cs. \<exists>res. evaluate_formula [112, c_and, 113] combo = Some (Inr res)"
    by (simp_all add: e)
  have "\<exists>rep. formula_equivalence [112, c_iff, 113] [112, c_and, 113] = Some (Report rep)
        \<and> \<not> is_equivalent rep
        \<and> difference_lines rep = [(1, [(112, py ''F''), (113, py ''F'')], py ''T'', py ''F'')]
        \<and> difference_count rep = 1"
    using equivalence_report_contents [OF u [symmetric] e1 e2]
    apply (elim exE conjE)
    subgoal for rep
      by (rule exI [of _ rep]) (simp add: upt_4 e py_T_neq_F)
    done
  with u e show ?thesis by (simp only:)
qed

section \<open>The bounds of the parser are never used up\<close>

lemma shrinksD: "shrinks D \<Longrightarrow> D ts = Some (a, r) \<Longrightarrow> length r \<le> length ts"
  unfolding shrinks_def by blast

lemma closing_shrinks:
  "shrinks D \<Longrightarrow> closing (D ts) = Some (a, r) \<Longrightarrow> length r < length ts"
  by (auto simp: closing_Some dest: shrinksD)

lemma p_atom_shrinks:
  assumes "shrinks D" and "p_atom D ts = Some (a, r)"
  shows "length r < length ts"
proof (cases "ts \<noteq> [] \<and> hd ts = TLp \<and> \<not> (tl ts \<noteq> [] \<and> hd (tl ts) = TRp)")
  case True
  with assms(2) have "closing (D (tl ts)) = Some (a, r)"
    by (cases ts) (auto simp: p_atom_def split: if_splits)
  from closing_shrinks [OF assms(1) this] True show ?thesis by (cases ts) auto
next
  case False
  with assms(2) show ?thesis
    by (cases ts; cases "tl ts") (auto simp: p_atom_def split: if_splits)
qed

lemma p_calls_shrinks:
  assumes "shrinks D"
  shows "p_calls D n f ts = Some (a, r) \<Longrightarrow> length r \<le> length ts"
proof (induction n arbitrary: f ts)
  case 0
  then show ?case by (auto split: if_splits)
next
  case (Suc n)
  show ?case
  proof (cases "ts \<noteq> [] \<and> hd ts = TLp")
    case False
    with Suc.prems show ?thesis by auto
  next
    case lp: True
    show ?thesis
    proof (cases "tl ts \<noteq> [] \<and> hd (tl ts) = TRp")
      case True
      with lp Suc.prems have "p_calls D n Raised (tl (tl ts)) = Some (a, r)" by simp
      from Suc.IH [OF this] show ?thesis by simp
    next
      case False
      with lp Suc.prems obtain arg r' where
        c: "closing (D (tl ts)) = Some (arg, r')"
        and p: "p_calls D n Raised r' = Some (a, r)"
        by (auto split: option.splits)
      from closing_shrinks [OF assms c] Suc.IH [OF p] show ?thesis by simp
    qed
  qed
qed

lemma p_primary_shrinks:
  assumes "shrinks D" and "p_primary D ts = Some (a, r)"
  shows "length r < length ts"
proof -
  from assms(2) obtain b r' where
    at: "p_atom D ts = Some (b, r')" and c: "p_calls D (length r') b r' = Some (a, r)"
    by (auto simp: p_primary_def split: option.splits)
  from p_atom_shrinks [OF assms(1) at] p_calls_shrinks [OF assms(1) c] show ?thesis by simp
qed

lemma p_cmp_more_shrinks:
  assumes "shrinks D"
  shows "p_cmp_more D n st ts = Some (a, r) \<Longrightarrow> length r \<le> length ts"
proof (induction n arbitrary: st ts)
  case 0
  then show ?case by (auto split: if_splits)
next
  case (Suc n)
  show ?case
  proof (cases "next_cmp ts")
    case None
    with Suc.prems show ?thesis by simp
  next
    case (Some op)
    with Suc.prems obtain b r' where
      p: "p_primary D (tl ts) = Some (b, r')"
      and m: "p_cmp_more D n (chain_step st op b) r' = Some (a, r)"
      by (auto split: option.splits)
    from p_primary_shrinks [OF assms p] Suc.IH [OF m] show ?thesis by simp
  qed
qed

lemma p_cmp_shrinks:
  assumes "shrinks D" and "p_cmp D ts = Some (a, r)"
  shows "length r < length ts"
proof -
  from assms(2) obtain b r' where
    at: "p_primary D ts = Some (b, r')"
    and c: "p_cmp_more D (length r') (chain_start b) r' = Some (a, r)"
    by (auto simp: p_cmp_def split: option.splits)
  from p_primary_shrinks [OF assms(1) at] p_cmp_more_shrinks [OF assms(1) c]
  show ?thesis by simp
qed

lemma p_inv_shrinks:
  assumes "shrinks D"
  shows "p_inv D ts = Some (a, r) \<Longrightarrow> length r < length ts"
proof (induction ts arbitrary: a)
  case Nil
  then show ?case by (simp add: p_cmp_Nil)
next
  case (Cons t ts)
  show ?case
  proof (cases "t = TNot")
    case True
    with Cons.prems obtain b where p: "p_inv D ts = Some (b, r)"
      by (auto split: option.splits)
    from Cons.IH [OF p] show ?thesis by simp
  next
    case False
    with Cons.prems p_cmp_shrinks [OF assms, of "t # ts" a r] show ?thesis by simp
  qed
qed

lemma p_conj_more_shrinks:
  assumes "shrinks D"
  shows "p_conj_more D n a ts = Some (b, r) \<Longrightarrow> length r \<le> length ts"
proof (induction n arbitrary: a ts)
  case 0
  then show ?case by (auto split: if_splits)
next
  case (Suc n)
  show ?case
  proof (cases "ts \<noteq> [] \<and> hd ts = TAnd")
    case True
    with Suc.prems obtain c r' where
      p: "p_inv D (tl ts) = Some (c, r')" and m: "p_conj_more D n (py_and a c) r' = Some (b, r)"
      by (auto split: option.splits)
    from p_inv_shrinks [OF assms p] Suc.IH [OF m] show ?thesis by simp
  next
    case False
    with Suc.prems show ?thesis by auto
  qed
qed

lemma p_conj_shrinks:
  assumes "shrinks D" and "p_conj D ts = Some (a, r)"
  shows "length r < length ts"
proof -
  from assms(2) obtain b r' where
    at: "p_inv D ts = Some (b, r')" and c: "p_conj_more D (length r') b r' = Some (a, r)"
    by (auto simp: p_conj_def split: option.splits)
  from p_inv_shrinks [OF assms(1) at] p_conj_more_shrinks [OF assms(1) c]
  show ?thesis by simp
qed

lemma p_disj_more_shrinks:
  assumes "shrinks D"
  shows "p_disj_more D n a ts = Some (b, r) \<Longrightarrow> length r \<le> length ts"
proof (induction n arbitrary: a ts)
  case 0
  then show ?case by (auto split: if_splits)
next
  case (Suc n)
  show ?case
  proof (cases "ts \<noteq> [] \<and> hd ts = TOr")
    case True
    with Suc.prems obtain c r' where
      p: "p_conj D (tl ts) = Some (c, r')" and m: "p_disj_more D n (py_or a c) r' = Some (b, r)"
      by (auto split: option.splits)
    from p_conj_shrinks [OF assms p] Suc.IH [OF m] show ?thesis by simp
  next
    case False
    with Suc.prems show ?thesis by auto
  qed
qed

lemma p_disj_shrinks:
  assumes "shrinks D" and "p_disj D ts = Some (a, r)"
  shows "length r < length ts"
proof -
  from assms(2) obtain b r' where
    at: "p_conj D ts = Some (b, r')" and c: "p_disj_more D (length r') b r' = Some (a, r)"
    by (auto simp: p_disj_def split: option.splits)
  from p_conj_shrinks [OF assms(1) at] p_disj_more_shrinks [OF assms(1) c]
  show ?thesis by simp
qed

lemma p_expr_shrinks: "shrinks (p_expr n)"
proof (induction n)
  case 0
  show ?case by (simp add: shrinks_def)
next
  case (Suc n)
  show ?case
    unfolding shrinks_def
    using p_disj_shrinks [OF Suc] by (auto intro: less_imp_le)
qed

text \<open>
  With a bound of at least the number of tokens left, a repetition gives the same
  answer as with any other such bound: the bound it is started with is never the reason
  for a \<open>SyntaxError\<close>.
\<close>

lemma p_calls_fuel:
  assumes "shrinks D"
  shows "length ts \<le> n \<Longrightarrow> length ts \<le> m \<Longrightarrow> p_calls D n f ts = p_calls D m f ts"
proof (induction n arbitrary: m f ts)
  case 0
  then show ?case by (cases m) simp_all
next
  case (Suc n)
  show ?case
  proof (cases "ts \<noteq> [] \<and> hd ts = TLp")
    case False
    then show ?thesis by (cases m) auto
  next
    case lp: True
    with Suc.prems obtain m' where m: "m = Suc m'" by (cases m) auto
    from lp Suc.prems m have t: "length (tl ts) \<le> n" "length (tl ts) \<le> m'" by auto
    show ?thesis
    proof (cases "tl ts \<noteq> [] \<and> hd (tl ts) = TRp")
      case True
      with t have "length (tl (tl ts)) \<le> n" "length (tl (tl ts)) \<le> m'" by auto
      from Suc.IH [OF this] lp True show ?thesis by (simp add: m)
    next
      case False
      show ?thesis
      proof (cases "closing (D (tl ts))")
        case None
        with lp False show ?thesis by (auto simp: m)
      next
        case (Some res)
        obtain arg r where res: "res = (arg, r)" by (cases res)
        from closing_shrinks [OF assms Some [unfolded res]] t
        have "length r \<le> n" "length r \<le> m'" by auto
        from Suc.IH [OF this] lp False Some res show ?thesis by (auto simp: m)
      qed
    qed
  qed
qed

lemma p_cmp_more_fuel:
  assumes "shrinks D"
  shows "length ts \<le> n \<Longrightarrow> length ts \<le> m \<Longrightarrow> p_cmp_more D n st ts = p_cmp_more D m st ts"
proof (induction n arbitrary: m st ts)
  case 0
  then show ?case by (cases m) (simp_all add: next_cmp_def)
next
  case (Suc n)
  show ?case
  proof (cases "next_cmp ts")
    case None
    then show ?thesis by (cases m) auto
  next
    case (Some op)
    then have ne: "ts \<noteq> []" by (rule next_cmp_Some_ne)
    with Suc.prems obtain m' where m: "m = Suc m'" by (cases m) auto
    from ne Suc.prems m have t: "length (tl ts) \<le> n" "length (tl ts) \<le> m'" by auto
    show ?thesis
    proof (cases "p_primary D (tl ts)")
      case None
      with Some show ?thesis by (simp add: m)
    next
      case res: (Some res)
      obtain b r where br: "res = (b, r)" by (cases res)
      from p_primary_shrinks [OF assms res [unfolded br]] t
      have "length r \<le> n" "length r \<le> m'" by auto
      from Suc.IH [OF this] Some res br show ?thesis by (simp add: m)
    qed
  qed
qed

lemma p_conj_more_fuel:
  assumes "shrinks D"
  shows "length ts \<le> n \<Longrightarrow> length ts \<le> m \<Longrightarrow> p_conj_more D n a ts = p_conj_more D m a ts"
proof (induction n arbitrary: m a ts)
  case 0
  then show ?case by (cases m) simp_all
next
  case (Suc n)
  show ?case
  proof (cases "ts \<noteq> [] \<and> hd ts = TAnd")
    case False
    then show ?thesis by (cases m) auto
  next
    case True
    with Suc.prems obtain m' where m: "m = Suc m'" by (cases m) auto
    from True Suc.prems m have t: "length (tl ts) \<le> n" "length (tl ts) \<le> m'" by auto
    show ?thesis
    proof (cases "p_inv D (tl ts)")
      case None
      with True show ?thesis by (simp add: m)
    next
      case (Some res)
      obtain b r where br: "res = (b, r)" by (cases res)
      from p_inv_shrinks [OF assms Some [unfolded br]] t
      have "length r \<le> n" "length r \<le> m'" by auto
      from Suc.IH [OF this] True Some br show ?thesis by (simp add: m)
    qed
  qed
qed

lemma p_disj_more_fuel:
  assumes "shrinks D"
  shows "length ts \<le> n \<Longrightarrow> length ts \<le> m \<Longrightarrow> p_disj_more D n a ts = p_disj_more D m a ts"
proof (induction n arbitrary: m a ts)
  case 0
  then show ?case by (cases m) simp_all
next
  case (Suc n)
  show ?case
  proof (cases "ts \<noteq> [] \<and> hd ts = TOr")
    case False
    then show ?thesis by (cases m) auto
  next
    case True
    with Suc.prems obtain m' where m: "m = Suc m'" by (cases m) auto
    from True Suc.prems m have t: "length (tl ts) \<le> n" "length (tl ts) \<le> m'" by auto
    show ?thesis
    proof (cases "p_conj D (tl ts)")
      case None
      with True show ?thesis by (simp add: m)
    next
      case (Some res)
      obtain b r where br: "res = (b, r)" by (cases res)
      from p_conj_shrinks [OF assms Some [unfolded br]] t
      have "length r \<le> n" "length r \<le> m'" by auto
      from Suc.IH [OF this] True Some br show ?thesis by (simp add: m)
    qed
  qed
qed

text \<open>
  The same for the nesting depth. Two inner parsers that agree on every input shorter
  than \<open>k\<close> give the same reading of an input of at most \<open>k\<close> tokens: the inner parser
  is only called behind an opening parenthesis.
\<close>

lemma agreeD: "agree k D D' \<Longrightarrow> length ts < k \<Longrightarrow> D ts = D' ts"
  unfolding agree_def by blast

lemma p_atom_agree:
  assumes "agree k D D'" and "length ts \<le> k"
  shows "p_atom D ts = p_atom D' ts"
proof (cases ts)
  case Nil
  then show ?thesis by (simp add: p_atom_def)
next
  case (Cons t r)
  with assms(2) have "length r < k" by simp
  from agreeD [OF assms(1) this] Cons show ?thesis by (auto simp: p_atom_def)
qed

lemma p_calls_agree:
  assumes "agree k D D'" and "shrinks D"
  shows "length ts \<le> k \<Longrightarrow> p_calls D n f ts = p_calls D' n f ts"
proof (induction n arbitrary: f ts)
  case 0
  show ?case by simp
next
  case (Suc n)
  show ?case
  proof (cases "ts \<noteq> [] \<and> hd ts = TLp")
    case False
    then show ?thesis by auto
  next
    case lp: True
    with Suc.prems have t: "length (tl ts) < k" by (cases ts) auto
    have d: "D (tl ts) = D' (tl ts)" by (rule agreeD [OF assms(1) t])
    show ?thesis
    proof (cases "tl ts \<noteq> [] \<and> hd (tl ts) = TRp")
      case True
      from t have "length (tl (tl ts)) \<le> k" by simp
      from Suc.IH [OF this] lp True show ?thesis by simp
    next
      case False
      show ?thesis
      proof (cases "closing (D (tl ts))")
        case None
        with lp False d show ?thesis by auto
      next
        case (Some res)
        obtain arg r where res: "res = (arg, r)" by (cases res)
        from closing_shrinks [OF assms(2) Some [unfolded res]] t
        have "length r \<le> k" by simp
        from Suc.IH [OF this] lp False Some res d show ?thesis by auto
      qed
    qed
  qed
qed

lemma p_primary_agree:
  assumes "agree k D D'" and "shrinks D" and "length ts \<le> k"
  shows "p_primary D ts = p_primary D' ts"
proof (cases "p_atom D ts")
  case None
  with p_atom_agree [OF assms(1,3)] show ?thesis by (simp add: p_primary_def)
next
  case (Some res)
  obtain b r where res: "res = (b, r)" by (cases res)
  from p_atom_shrinks [OF assms(2) Some [unfolded res]] assms(3)
  have "length r \<le> k" by simp
  note m = p_calls_agree [OF assms(1,2) this]
  from p_atom_agree [OF assms(1,3)] Some res have "p_atom D' ts = Some (b, r)" by simp
  with Some res m show ?thesis by (simp add: p_primary_def)
qed

lemma p_cmp_more_agree:
  assumes "agree k D D'" and "shrinks D"
  shows "length ts \<le> k \<Longrightarrow> p_cmp_more D n st ts = p_cmp_more D' n st ts"
proof (induction n arbitrary: st ts)
  case 0
  show ?case by simp
next
  case (Suc n)
  show ?case
  proof (cases "next_cmp ts")
    case None
    then show ?thesis by simp
  next
    case (Some op)
    from Suc.prems have t: "length (tl ts) \<le> k" by simp
    note p = p_primary_agree [OF assms t]
    show ?thesis
    proof (cases "p_primary D (tl ts)")
      case None
      with Some p show ?thesis by simp
    next
      case res: (Some res)
      obtain b r where br: "res = (b, r)" by (cases res)
      from p_primary_shrinks [OF assms(2) res [unfolded br]] t
      have "length r \<le> k" by simp
      from Suc.IH [OF this] Some res br p show ?thesis by simp
    qed
  qed
qed

lemma p_cmp_agree:
  assumes "agree k D D'" and "shrinks D" and "length ts \<le> k"
  shows "p_cmp D ts = p_cmp D' ts"
proof (cases "p_primary D ts")
  case None
  with p_primary_agree [OF assms] show ?thesis by (simp add: p_cmp_def)
next
  case (Some res)
  obtain b r where res: "res = (b, r)" by (cases res)
  from p_primary_shrinks [OF assms(2) Some [unfolded res]] assms(3)
  have "length r \<le> k" by simp
  note m = p_cmp_more_agree [OF assms(1,2) this]
  from p_primary_agree [OF assms] Some res have "p_primary D' ts = Some (b, r)" by simp
  with Some res m show ?thesis by (simp add: p_cmp_def)
qed

lemma p_inv_agree:
  assumes "agree k D D'" and "shrinks D"
  shows "length ts \<le> k \<Longrightarrow> p_inv D ts = p_inv D' ts"
proof (induction ts)
  case Nil
  show ?case by (simp add: p_cmp_Nil)
next
  case (Cons t ts)
  from Cons.prems have "length ts \<le> k" by simp
  from Cons.IH [OF this] p_cmp_agree [OF assms Cons.prems] show ?case by simp
qed

lemma p_conj_more_agree:
  assumes "agree k D D'" and "shrinks D"
  shows "length ts \<le> k \<Longrightarrow> p_conj_more D n a ts = p_conj_more D' n a ts"
proof (induction n arbitrary: a ts)
  case 0
  show ?case by simp
next
  case (Suc n)
  show ?case
  proof (cases "ts \<noteq> [] \<and> hd ts = TAnd")
    case False
    then show ?thesis by auto
  next
    case True
    from Suc.prems have t: "length (tl ts) \<le> k" by simp
    note p = p_inv_agree [OF assms t]
    show ?thesis
    proof (cases "p_inv D (tl ts)")
      case None
      with True p show ?thesis by simp
    next
      case (Some res)
      obtain b r where br: "res = (b, r)" by (cases res)
      from p_inv_shrinks [OF assms(2) Some [unfolded br]] t
      have "length r \<le> k" by simp
      from Suc.IH [OF this] True Some br p show ?thesis by simp
    qed
  qed
qed

lemma p_conj_agree:
  assumes "agree k D D'" and "shrinks D" and "length ts \<le> k"
  shows "p_conj D ts = p_conj D' ts"
proof (cases "p_inv D ts")
  case None
  with p_inv_agree [OF assms] show ?thesis by (simp add: p_conj_def)
next
  case (Some res)
  obtain b r where res: "res = (b, r)" by (cases res)
  from p_inv_shrinks [OF assms(2) Some [unfolded res]] assms(3)
  have "length r \<le> k" by simp
  note m = p_conj_more_agree [OF assms(1,2) this]
  from p_inv_agree [OF assms] Some res have "p_inv D' ts = Some (b, r)" by simp
  with Some res m show ?thesis by (simp add: p_conj_def)
qed

lemma p_disj_more_agree:
  assumes "agree k D D'" and "shrinks D"
  shows "length ts \<le> k \<Longrightarrow> p_disj_more D n a ts = p_disj_more D' n a ts"
proof (induction n arbitrary: a ts)
  case 0
  show ?case by simp
next
  case (Suc n)
  show ?case
  proof (cases "ts \<noteq> [] \<and> hd ts = TOr")
    case False
    then show ?thesis by auto
  next
    case True
    from Suc.prems have t: "length (tl ts) \<le> k" by simp
    note p = p_conj_agree [OF assms t]
    show ?thesis
    proof (cases "p_conj D (tl ts)")
      case None
      with True p show ?thesis by simp
    next
      case (Some res)
      obtain b r where br: "res = (b, r)" by (cases res)
      from p_conj_shrinks [OF assms(2) Some [unfolded br]] t
      have "length r \<le> k" by simp
      from Suc.IH [OF this] True Some br p show ?thesis by simp
    qed
  qed
qed

lemma p_disj_agree:
  assumes "agree k D D'" and "shrinks D" and "length ts \<le> k"
  shows "p_disj D ts = p_disj D' ts"
proof (cases "p_conj D ts")
  case None
  with p_conj_agree [OF assms] show ?thesis by (simp add: p_disj_def)
next
  case (Some res)
  obtain b r where res: "res = (b, r)" by (cases res)
  from p_conj_shrinks [OF assms(2) Some [unfolded res]] assms(3)
  have "length r \<le> k" by simp
  note m = p_disj_more_agree [OF assms(1,2) this]
  from p_conj_agree [OF assms] Some res have "p_conj D' ts = Some (b, r)" by simp
  with Some res m show ?thesis by (simp add: p_disj_def)
qed

lemma p_expr_agree:
  "length ts < n \<Longrightarrow> length ts < m \<Longrightarrow> p_expr n ts = p_expr m ts"
proof (induction "length ts" arbitrary: ts n m rule: less_induct)
  case less
  from less.prems obtain n' m' where nm: "n = Suc n'" "m = Suc m'"
    by (cases n; cases m) auto
  have "agree (length ts) (p_expr n') (p_expr m')"
    unfolding agree_def
  proof (intro allI impI)
    fix ts' :: "token list"
    assume l: "length ts' < length ts"
    with less.prems nm have "length ts' < n'" "length ts' < m'" by auto
    from less.hyps [OF l this] show "p_expr n' ts' = p_expr m' ts'" .
  qed
  from p_disj_agree [OF this p_expr_shrinks order_refl] show ?case by (simp add: nm)
qed

text \<open>
  So the depth \<open>py_parse\<close> allows, one more than the number of tokens, is enough: a
  greater one reads the same.
\<close>

lemma p_expr_depth: "length ts < n \<Longrightarrow> p_expr n ts = p_expr (Suc (length ts)) ts"
  by (rule p_expr_agree) simp_all

end
